theory Spec2Isabelle
  imports Main "HOL-Library.Sublist"
begin

section \<open>Values handled by the service\<close>

text \<open>
  The service moves JSON data between two upstream platforms and a document store.
  A Python \<open>str\<close> is modelled as a \<open>string\<close> whose characters are code points below 256.
  A Python \<open>float\<close> is a dyadic number or one of the three special values that
  \<open>json.loads\<close> accepts.
\<close>

datatype pyfloat = Float int int | Inf bool | NaN

datatype json =
    JNull
  | JBool bool
  | JInt int
  | JFloat pyfloat
  | JStr string
  | JArr "json list"
  | JObj "(string \<times> json) list"

text \<open>A point in time, as produced by the \<open>datetime\<close> constructors of the environment.\<close>

datatype datetime = Datetime int

text \<open>
  Every exception the handlers can raise. \<open>HTTPException\<close> is the one the handlers raise
  themselves, \<open>RequestValidationError\<close> is the framework's rejection of a request that
  violates the declared bounds, \<open>Raised\<close> is any exception of a library call.
\<close>

datatype error =
    HTTPException int string
  | RequestValidationError
  | AttributeError
  | TypeError
  | ValidationError
  | JSONDecodeError
  | Raised string

definition ebind :: "error + 'a \<Rightarrow> ('a \<Rightarrow> error + 'b) \<Rightarrow> error + 'b" where
  "ebind m f = (case m of Inl e \<Rightarrow> Inl e | Inr x \<Rightarrow> f x)"

subsection \<open>Python's operations on these values\<close>

fun float_nonzero :: "pyfloat \<Rightarrow> bool" where
  "float_nonzero (Float m e) = (m \<noteq> 0)"
| "float_nonzero (Inf s) = True"
| "float_nonzero NaN = True"

text \<open>\<open>bool(v)\<close>: the truth value Python gives to \<open>v\<close> in \<open>if v\<close>, \<open>v or w\<close>, \<open>not v\<close>.\<close>

fun truthy :: "json \<Rightarrow> bool" where
  "truthy JNull = False"
| "truthy (JBool b) = b"
| "truthy (JInt n) = (n \<noteq> 0)"
| "truthy (JFloat f) = float_nonzero f"
| "truthy (JStr s) = (s \<noteq> [])"
| "truthy (JArr xs) = (xs \<noteq> [])"
| "truthy (JObj kvs) = (kvs \<noteq> [])"

text \<open>\<open>a or b\<close>\<close>

definition py_or :: "json \<Rightarrow> json \<Rightarrow> json" where
  "py_or a b = (if truthy a then a else b)"

text \<open>\<open>d.get(k, default)\<close>: only a dict has the method.\<close>

fun dict_get :: "json \<Rightarrow> string \<Rightarrow> json \<Rightarrow> error + json" where
  "dict_get (JObj kvs) k d = Inr (case map_of kvs k of None \<Rightarrow> d | Some v \<Rightarrow> v)"
| "dict_get _ k d = Inl AttributeError"

text \<open>\<open>d.get(k)\<close> on the entries of a dict.\<close>

definition obj_get :: "(string \<times> json) list \<Rightarrow> string \<Rightarrow> json" where
  "obj_get kvs k = (case map_of kvs k of None \<Rightarrow> JNull | Some v \<Rightarrow> v)"

text \<open>
  \<open>a + b\<close> where one operand is known to be a \<open>str\<close>: the other one has to be a \<open>str\<close> too.
\<close>

fun str_add :: "json \<Rightarrow> json \<Rightarrow> error + json" where
  "str_add (JStr a) (JStr b) = Inr (JStr (a @ b))"
| "str_add _ _ = Inl TypeError"

text \<open>\<open>for x in v\<close>: the elements of a list, the characters of a string, the keys of a dict.\<close>

fun py_iter :: "json \<Rightarrow> error + json list" where
  "py_iter (JArr xs) = Inr xs"
| "py_iter (JStr s) = Inr (map (\<lambda>c. JStr [c]) s)"
| "py_iter (JObj kvs) = Inr (map (\<lambda>kv. JStr (fst kv)) kvs)"
| "py_iter _ = Inl TypeError"

text \<open>\<open>xs[start:]\<close> on a list, for any integer \<open>start\<close>.\<close>

definition slice_from :: "int \<Rightarrow> 'a list \<Rightarrow> 'a list" where
  "slice_from start xs =
     (let n = int (length xs);
          i = (if start < 0 then max 0 (n + start) else min n start)
      in drop (nat i) xs)"

text \<open>
  \<open>v[start:]\<close> followed by iteration: a list or a string can be sliced, nothing else.
\<close>

fun py_slice_from :: "int \<Rightarrow> json \<Rightarrow> error + json list" where
  "py_slice_from start (JArr xs) = Inr (slice_from start xs)"
| "py_slice_from start (JStr s) = Inr (slice_from start (map (\<lambda>c. JStr [c]) s))"
| "py_slice_from start _ = Inl TypeError"

text \<open>\<open>isinstance(v, int)\<close>: \<open>bool\<close> is a subclass of \<open>int\<close>.\<close>

fun as_int :: "json \<Rightarrow> int option" where
  "as_int (JInt n) = Some n"
| "as_int (JBool b) = Some (if b then 1 else 0)"
| "as_int _ = None"

text \<open>\<open>str.strip()\<close> and \<open>str.lower()\<close> on code points below 256.\<close>

definition is_space :: "char \<Rightarrow> bool" where
  "is_space c = ((of_char c :: nat) \<in> {9, 10, 11, 12, 13, 28, 29, 30, 31, 32, 133, 160})"

definition strip :: "string \<Rightarrow> string" where
  "strip s = rev (dropWhile is_space (rev (dropWhile is_space s)))"

definition lower_char :: "char \<Rightarrow> char" where
  "lower_char c =
     (let n = (of_char c :: nat)
      in if (65 \<le> n \<and> n \<le> 90) \<or> (192 \<le> n \<and> n \<le> 222 \<and> n \<noteq> 215)
         then char_of (n + 32) else c)"

definition lower :: "string \<Rightarrow> string" where
  "lower s = map lower_char s"

text \<open>\<open>str(n)\<close> for an integer.\<close>

fun str_nat :: "nat \<Rightarrow> string" where
  "str_nat n = (if n < 10 then [char_of (48 + n)]
                else str_nat (n div 10) @ [char_of (48 + n mod 10)])"

definition str_int :: "int \<Rightarrow> string" where
  "str_int i = (if i < 0 then CHR ''-'' # str_nat (nat (- i)) else str_nat (nat i))"

section \<open>The environment\<close>

text \<open>An outbound HTTP request and the parts of a response the handlers read.\<close>

record request =
  url :: json
  params :: "(string \<times> string) list"
  headers :: "(string \<times> string) list"

record response =
  status_code :: int
  json_body :: "json option"
  iter_lines :: "string list"

text \<open>A stored document: field names to values, in insertion order.\<close>

datatype bvalue = BNull | BBool bool | BStr string | BDate datetime | BObjectId nat

type_synonym document = "(string \<times> bvalue) list"

text \<open>
  What the handlers take from libraries and from the outside world. Each is a function:
  asked again with the same argument, the upstream and the libraries answer the same.
  \<^item> \<open>requests_get\<close>: the outcome of \<open>requests.get\<close>, an exception or a response
    (\<open>json_body\<close> is \<open>None\<close> when \<open>r.json()\<close> raises, \<open>iter_lines\<close> are the lines of the
    body, all of which arrive);
  \<^item> \<open>json_loads\<close>: \<open>json.loads\<close>, \<open>None\<close> when it raises;
  \<^item> \<open>utcfromtimestamp\<close>: \<open>datetime.utcfromtimestamp\<close>, which raises out of range;
  \<^item> \<open>fromtimestamp_ms\<close>: the guarded block \<open>datetime.fromtimestamp(int(v) / 1000)\<close>,
    \<open>None\<close> when anything in it raises;
  \<^item> \<open>py_repr\<close>: \<open>str(v)\<close> of a float, a list or a dict;
  \<^item> \<open>bool_lax\<close>: the validation of a non-boolean value given to an optional boolean field,
    \<open>None\<close> when the value is rejected;
  \<^item> \<open>mongo_match\<close>: whether a stored value matches a query value that is not a string;
  \<^item> \<open>utcnow\<close>: the creation timestamp of the k-th stored document;
  \<^item> \<open>objectid_str\<close>, \<open>datetime_str\<close>, \<open>isoformat\<close>: textual forms;
  \<^item> \<open>uuid4\<close>: a fresh identifier.
\<close>

record env =
  requests_get :: "request \<Rightarrow> error + response"
  json_loads :: "string \<Rightarrow> json option"
  utcfromtimestamp :: "int \<Rightarrow> error + datetime"
  fromtimestamp_ms :: "json \<Rightarrow> datetime option"
  py_repr :: "json \<Rightarrow> string"
  bool_lax :: "json \<Rightarrow> bool option"
  mongo_match :: "json \<Rightarrow> bvalue \<Rightarrow> bool"
  utcnow :: "nat \<Rightarrow> datetime"
  objectid_str :: "nat \<Rightarrow> string"
  datetime_str :: "datetime \<Rightarrow> string"
  isoformat :: "datetime \<Rightarrow> string"
  uuid4 :: "string"

section \<open>The schemas\<close>

text \<open>
  \<open>Game\<close>: \<open>source\<close>, \<open>username\<close> and \<open>pgn\<close> are required strings, the other fields are
  optional.
\<close>

record game =
  source :: string
  username :: string
  white :: "string option"
  black :: "string option"
  pgn :: string
  rated :: "bool option"
  speed :: "string option"
  time_control :: "string option"
  result :: "string option"
  end_time :: "datetime option"
  "opening" :: "string option"

text \<open>\<open>ImportRequest\<close>: \<open>months\<close> in 1..12 and \<open>limit\<close> in 1..1000, or null.\<close>

record import_request =
  req_username :: string
  req_months :: "int option"
  req_limit :: "int option"

definition ImportRequest_valid :: "import_request \<Rightarrow> bool" where
  "ImportRequest_valid req =
     ((case req_months req of None \<Rightarrow> True | Some m \<Rightarrow> 1 \<le> m \<and> m \<le> 12) \<and>
      (case req_limit req of None \<Rightarrow> True | Some l \<Rightarrow> 1 \<le> l \<and> l \<le> 1000))"

text \<open>\<open>x or d\<close> for an optional integer \<open>x\<close>.\<close>

definition int_or :: "int option \<Rightarrow> int \<Rightarrow> int" where
  "int_or x d = (case x of None \<Rightarrow> d | Some v \<Rightarrow> if v = 0 then d else v)"

text \<open>
  The validation the model class applies to the values it is built from, as the
  validation library does it in its current major version: a string field takes a string
  and nothing else, an optional field also takes \<open>None\<close>, an optional boolean field takes a
  boolean or what the library's conversion accepts. Any failure raises
  \<open>ValidationError\<close>.
\<close>

fun validate_str :: "json \<Rightarrow> error + string" where
  "validate_str (JStr s) = Inr s"
| "validate_str _ = Inl ValidationError"

fun validate_opt_str :: "json \<Rightarrow> error + string option" where
  "validate_opt_str JNull = Inr None"
| "validate_opt_str (JStr s) = Inr (Some s)"
| "validate_opt_str _ = Inl ValidationError"

fun validate_opt_bool :: "env \<Rightarrow> json \<Rightarrow> error + bool option" where
  "validate_opt_bool env JNull = Inr None"
| "validate_opt_bool env (JBool b) = Inr (Some b)"
| "validate_opt_bool env v =
     (case bool_lax env v of None \<Rightarrow> Inl ValidationError | Some b \<Rightarrow> Inr (Some b))"

text \<open>The values a handler extracts from one upstream game before it builds a \<open>Game\<close>.\<close>

record raw =
  raw_white :: json
  raw_black :: json
  raw_rated :: json
  raw_speed :: json
  raw_time_control :: json
  raw_result :: json
  raw_end_time :: "datetime option"
  raw_opening :: json

text \<open>\<open>Game(source=..., username=..., white=..., ...)\<close>\<close>

definition Game :: "env \<Rightarrow> string \<Rightarrow> string \<Rightarrow> json \<Rightarrow> raw \<Rightarrow> error + game" where
  "Game env src user p f =
     ebind (validate_opt_str (raw_white f)) (\<lambda>w.
     ebind (validate_opt_str (raw_black f)) (\<lambda>b.
     ebind (validate_str p) (\<lambda>p'.
     ebind (validate_opt_bool env (raw_rated f)) (\<lambda>r.
     ebind (validate_opt_str (raw_speed f)) (\<lambda>sp.
     ebind (validate_opt_str (raw_time_control f)) (\<lambda>tc.
     ebind (validate_opt_str (raw_result f)) (\<lambda>res.
     ebind (validate_opt_str (raw_opening f)) (\<lambda>op.
     Inr \<lparr>source = src, username = user, white = w, black = b, pgn = p', rated = r,
          speed = sp, time_control = tc, result = res, end_time = raw_end_time f,
          opening = op\<rparr>))))))))"

section \<open>The persistence gateway\<close>

text \<open>
  All calls of the handlers name the collection \<open>game\<close>; the store is that collection, a
  list of documents in storage order. The datastore is taken to be reachable and to accept
  every query: its calls return.
\<close>

definition bopt_str :: "string option \<Rightarrow> bvalue" where
  "bopt_str x = (case x of None \<Rightarrow> BNull | Some s \<Rightarrow> BStr s)"

definition bopt_bool :: "bool option \<Rightarrow> bvalue" where
  "bopt_bool x = (case x of None \<Rightarrow> BNull | Some b \<Rightarrow> BBool b)"

definition bopt_date :: "datetime option \<Rightarrow> bvalue" where
  "bopt_date x = (case x of None \<Rightarrow> BNull | Some d \<Rightarrow> BDate d)"

text \<open>The record as a document, one entry for each field of the schema.\<close>

definition game_dump :: "game \<Rightarrow> document" where
  "game_dump g =
     [(''source'', BStr (source g)), (''username'', BStr (username g)),
      (''white'', bopt_str (white g)), (''black'', bopt_str (black g)),
      (''pgn'', BStr (pgn g)), (''rated'', bopt_bool (rated g)),
      (''speed'', bopt_str (speed g)), (''time_control'', bopt_str (time_control g)),
      (''result'', bopt_str (result g)), (''end_time'', bopt_date (end_time g)),
      (''opening'', bopt_str (opening g))]"

text \<open>
  Modelled from the spec: \<open>create_document\<close> is defined in the module \<open>database\<close>, which is
  not among the sources. The spec: it "appends a semantic-container representation of the
  record (plus a creation timestamp) to the named collection".
\<close>

definition create_document :: "env \<Rightarrow> game \<Rightarrow> document list \<Rightarrow> document list" where
  "create_document env g st =
     st @ [game_dump g @ [(''created_at'', BDate (utcnow env (length st)))]]"

text \<open>
  Modelled from the spec: \<open>get_documents\<close> is defined in the module \<open>database\<close>, which is
  not among the sources. The spec: \<open>find_many\<close> "returns up to \<open>limit\<close> matching records
  in storage order", matching being by "an exact-field filter mapping".
\<close>

definition get_documents :: "document list \<Rightarrow> (string \<times> string) list \<Rightarrow> int \<Rightarrow> document list" where
  "get_documents st filt n =
     take (nat n) (filter (\<lambda>d. list_all (\<lambda>kv. map_of d (fst kv) = Some (BStr (snd kv))) filt) st)"

text \<open>
  \<open>db["game"].find_one(key)\<close>: the first document each of whose fields named in the key
  matches the key's value. A string matches the same stored string; for any other query
  value the datastore decides.
\<close>

definition query_match :: "env \<Rightarrow> document \<Rightarrow> string \<times> json \<Rightarrow> bool" where
  "query_match env d kq =
     (case snd kq of
        JStr s \<Rightarrow> map_of d (fst kq) = Some (BStr s)
      | q \<Rightarrow> mongo_match env q (case map_of d (fst kq) of None \<Rightarrow> BNull | Some v \<Rightarrow> v))"

definition find_one :: "env \<Rightarrow> (string \<times> json) list \<Rightarrow> document list \<Rightarrow> document option" where
  "find_one env key st = find (\<lambda>d. list_all (query_match env d) key) st"

section \<open>Import from chess.com\<close>

text \<open>
  A handler returns its outcome (an exception or a value), the store it leaves, and the
  outbound requests it made, in order.
\<close>

type_synonym 'a io = "(error + 'a) \<times> document list \<times> request list"

definition after :: "request \<Rightarrow> 'a io \<Rightarrow> 'a io" where
  "after rq x = (case x of (r, st, cs) \<Rightarrow> (r, st, rq # cs))"

record import_response =
  resp_source :: string
  resp_username :: string
  inserted :: int

text \<open>\<open>str(tc) if tc is not None else None\<close>\<close>

fun py_str :: "env \<Rightarrow> json \<Rightarrow> string" where
  "py_str env (JStr s) = s"
| "py_str env (JInt n) = str_int n"
| "py_str env (JBool b) = (if b then ''True'' else ''False'')"
| "py_str env JNull = ''None''"
| "py_str env v = py_repr env v"

text \<open>Lines 95 to 102: the fields of one game of an archive.\<close>

definition chesscom_fields :: "env \<Rightarrow> json \<Rightarrow> error + raw" where
  "chesscom_fields env g =
     ebind (dict_get g ''white'' JNull) (\<lambda>gw.
     ebind (dict_get (py_or gw (JObj [])) ''username'' JNull) (\<lambda>wu.
     ebind (dict_get g ''black'' JNull) (\<lambda>gb.
     ebind (dict_get (py_or gb (JObj [])) ''username'' JNull) (\<lambda>bu.
     ebind (if truthy gw \<and> truthy gb
            then ebind (dict_get (py_or gw (JObj [])) ''result'' JNull) (\<lambda>wr.
                 ebind (str_add wr (JStr ''/'')) (\<lambda>s.
                 ebind (dict_get (py_or gb (JObj [])) ''result'' JNull) (\<lambda>br.
                 str_add s br)))
            else Inr JNull) (\<lambda>res.
     ebind (dict_get g ''time_control'' JNull) (\<lambda>tc.
     ebind (dict_get g ''time_class'' JNull) (\<lambda>sp.
     ebind (dict_get g ''end_time'' JNull) (\<lambda>et.
     ebind (case as_int et of None \<Rightarrow> Inr None
            | Some n \<Rightarrow> ebind (utcfromtimestamp env n) (\<lambda>d. Inr (Some d))) (\<lambda>end_dt.
     ebind (dict_get g ''rated'' JNull) (\<lambda>r.
     Inr \<lparr>raw_white = py_or wu JNull, raw_black = py_or bu JNull, raw_rated = r,
          raw_speed = sp,
          raw_time_control = (if tc \<noteq> JNull then JStr (py_str env tc) else JNull),
          raw_result = res, raw_end_time = end_dt, raw_opening = JNull\<rparr>))))))))))"

text \<open>
  Lines 92 to 122: the body of the inner loop for one game, after the test of the limit.
  It returns the new count and the new store.
\<close>

definition chesscom_game ::
  "env \<Rightarrow> string \<Rightarrow> json \<Rightarrow> int \<Rightarrow> document list \<Rightarrow> (error + int) \<times> document list" where
  "chesscom_game env user g n st =
     (case dict_get g ''pgn'' JNull of
        Inl e \<Rightarrow> (Inl e, st)
      | Inr p \<Rightarrow>
          if \<not> truthy p then (Inr n, st)
          else (case chesscom_fields env g of
                  Inl e \<Rightarrow> (Inl e, st)
                | Inr f \<Rightarrow>
                    if find_one env [(''source'', JStr ''chesscom''), (''pgn'', p)] st \<noteq> None
                    then (Inr n, st)
                    else (case Game env ''chesscom'' user p f of
                            Inl e \<Rightarrow> (Inl e, st)
                          | Inr doc \<Rightarrow> (Inr (n + 1), create_document env doc st))))"

text \<open>Lines 89 to 122: the inner loop over the games of one archive.\<close>

fun games_loop ::
  "env \<Rightarrow> string \<Rightarrow> int \<Rightarrow> json list \<Rightarrow> int \<Rightarrow> document list \<Rightarrow> (error + int) \<times> document list" where
  "games_loop env user lim [] n st = (Inr n, st)"
| "games_loop env user lim (g # gs) n st =
     (if n \<ge> lim then (Inr n, st)
      else (case chesscom_game env user g n st of
              (Inl e, st') \<Rightarrow> (Inl e, st')
            | (Inr n', st') \<Rightarrow> games_loop env user lim gs n' st'))"

definition archive_request :: "json \<Rightarrow> request" where
  "archive_request u = \<lparr>url = u, params = [], headers = []\<rparr>"

text \<open>Lines 87 and 88: the games of a fetched archive, as the sequence the loop runs over.\<close>

definition archive_games :: "response \<Rightarrow> error + json list" where
  "archive_games gr =
     (case json_body gr of
        None \<Rightarrow> Inl JSONDecodeError
      | Some data \<Rightarrow> ebind (dict_get data ''games'' (JArr [])) py_iter)"

text \<open>Lines 83 to 124: the outer loop over the archives.\<close>

fun archives_loop ::
  "env \<Rightarrow> string \<Rightarrow> int \<Rightarrow> json list \<Rightarrow> int \<Rightarrow> document list \<Rightarrow> int io" where
  "archives_loop env user lim [] n st = (Inr n, st, [])"
| "archives_loop env user lim (u # us) n st =
     after (archive_request u)
       (case requests_get env (archive_request u) of
          Inl e \<Rightarrow> (Inl e, st, [])
        | Inr gr \<Rightarrow>
            if status_code gr \<noteq> 200 then archives_loop env user lim us n st
            else (case archive_games gr of
                    Inl e \<Rightarrow> (Inl e, st, [])
                  | Inr games \<Rightarrow>
                      (case games_loop env user lim games n st of
                         (Inl e, st') \<Rightarrow> (Inl e, st', [])
                       | (Inr n', st') \<Rightarrow>
                           if n' \<ge> lim then (Inr n', st', [])
                           else archives_loop env user lim us n' st')))"

definition chesscom_index_request :: "string \<Rightarrow> request" where
  "chesscom_index_request user =
     archive_request (JStr (''https://api.chess.com/pub/player/'' @ user @ ''/games/archives''))"

text \<open>Lines 80 to 83: the archives the outer loop runs over, in its order.\<close>

definition archive_list :: "int \<Rightarrow> response \<Rightarrow> error + json list" where
  "archive_list months r =
     (case json_body r of
        None \<Rightarrow> Inl JSONDecodeError
      | Some j \<Rightarrow> ebind (dict_get j ''archives'' (JArr [])) (\<lambda>a.
                 ebind (py_slice_from (- months) a) (\<lambda>l. Inr (rev l))))"

definition import_chesscom :: "env \<Rightarrow> import_request \<Rightarrow> document list \<Rightarrow> import_response io" where
  "import_chesscom env req st =
     (if \<not> ImportRequest_valid req then (Inl RequestValidationError, st, [])
      else
        let user = lower (strip (req_username req));
            months = int_or (req_months req) 1;
            lim = int_or (req_limit req) 50
        in after (chesscom_index_request user)
             (case requests_get env (chesscom_index_request user) of
                Inl e \<Rightarrow> (Inl e, st, [])
              | Inr r \<Rightarrow>
                  if status_code r \<noteq> 200
                  then (Inl (HTTPException 400
                          (''chess.com user not found or no archives: '' @ user)), st, [])
                  else (case archive_list months r of
                          Inl e \<Rightarrow> (Inl e, st, [])
                        | Inr us \<Rightarrow>
                            (case archives_loop env user lim us 0 st of
                               (Inl e, st', cs) \<Rightarrow> (Inl e, st', cs)
                             | (Inr n, st', cs) \<Rightarrow>
                                 (Inr \<lparr>resp_source = ''chesscom'', resp_username = user,
                                       inserted = n\<rparr>, st', cs)))))"

section \<open>Import from lichess\<close>

definition lichess_request :: "string \<Rightarrow> int \<Rightarrow> request" where
  "lichess_request user lim =
     \<lparr>url = JStr (''https://lichess.org/api/games/user/'' @ user),
      params = [(''max'', str_int lim), (''moves'', ''true''), (''pgnInJson'', ''true''),
                (''clocks'', ''false''), (''opening'', ''true''),
                (''perfType'', ''bullet,blitz,rapid'')],
      headers = [(''Accept'', ''application/x-ndjson'')]\<rparr>"

text \<open>
  Lines 163 and 164: the name of a player, from the nested structure or from the flat field.
\<close>

definition lichess_player :: "json \<Rightarrow> string \<Rightarrow> error + json" where
  "lichess_player g side =
     ebind (dict_get g ''players'' (JObj [])) (\<lambda>ps.
     ebind (dict_get ps side (JObj [])) (\<lambda>pl.
     ebind (dict_get (py_or pl (JObj [])) ''user'' (JObj [])) (\<lambda>us.
     ebind (dict_get us ''name'' JNull) (\<lambda>nm.
     if truthy nm then Inr nm
     else ebind (dict_get g side JNull) (\<lambda>flat. Inr (py_or flat JNull))))))"

text \<open>Lines 163 to 175: the fields of one game of the stream.\<close>

definition lichess_fields :: "env \<Rightarrow> json \<Rightarrow> error + raw" where
  "lichess_fields env g =
     ebind (lichess_player g ''white'') (\<lambda>w.
     ebind (lichess_player g ''black'') (\<lambda>b.
     ebind (dict_get g ''rated'' JNull) (\<lambda>r.
     ebind (dict_get g ''speed'' JNull) (\<lambda>sp.
     ebind (dict_get g ''timeControl'' JNull) (\<lambda>tc.
     ebind (dict_get g ''status'' JNull) (\<lambda>res.
     ebind (dict_get g ''lastMoveAt'' JNull) (\<lambda>lm.
     ebind (dict_get g ''opening'' JNull) (\<lambda>op.
     ebind (case op of JObj kvs \<Rightarrow> dict_get (py_or op (JObj [])) ''name'' JNull
            | _ \<Rightarrow> Inr op) (\<lambda>opn.
     Inr \<lparr>raw_white = w, raw_black = b,
          raw_rated = (if r \<noteq> JNull then JBool (truthy r) else JNull),
          raw_speed = py_or sp JNull, raw_time_control = py_or tc JNull,
          raw_result = py_or res JNull,
          raw_end_time = (if truthy lm then fromtimestamp_ms env lm else None),
          raw_opening = opn\<rparr>)))))))))"

text \<open>\<open>g.get("pgn") or g.get("pgnStr")\<close>\<close>

definition lichess_pgn :: "json \<Rightarrow> error + json" where
  "lichess_pgn g =
     ebind (dict_get g ''pgn'' JNull) (\<lambda>p.
       if truthy p then Inr p else dict_get g ''pgnStr'' JNull)"

text \<open>Lines 159 to 196: the body of the loop for one decoded game.\<close>

definition lichess_game ::
  "env \<Rightarrow> string \<Rightarrow> json \<Rightarrow> int \<Rightarrow> document list \<Rightarrow> (error + int) \<times> document list" where
  "lichess_game env user g n st =
     (case lichess_pgn g of
        Inl e \<Rightarrow> (Inl e, st)
      | Inr p \<Rightarrow>
          if \<not> truthy p then (Inr n, st)
          else (case lichess_fields env g of
                  Inl e \<Rightarrow> (Inl e, st)
                | Inr f \<Rightarrow>
                    if find_one env [(''source'', JStr ''lichess''), (''pgn'', p)] st \<noteq> None
                    then (Inr n, st)
                    else (case Game env ''lichess'' user p f of
                            Inl e \<Rightarrow> (Inl e, st)
                          | Inr doc \<Rightarrow> (Inr (n + 1), create_document env doc st))))"

text \<open>Lines 151 to 196: the loop over the lines of the response.\<close>

fun lichess_lines ::
  "env \<Rightarrow> string \<Rightarrow> string list \<Rightarrow> int \<Rightarrow> document list \<Rightarrow> (error + int) \<times> document list" where
  "lichess_lines env user [] n st = (Inr n, st)"
| "lichess_lines env user (line # ls) n st =
     (if line = [] then lichess_lines env user ls n st
      else (case json_loads env line of
              None \<Rightarrow> lichess_lines env user ls n st
            | Some g \<Rightarrow>
                (case lichess_game env user g n st of
                   (Inl e, st') \<Rightarrow> (Inl e, st')
                 | (Inr n', st') \<Rightarrow> lichess_lines env user ls n' st')))"

definition import_lichess :: "env \<Rightarrow> import_request \<Rightarrow> document list \<Rightarrow> import_response io" where
  "import_lichess env req st =
     (if \<not> ImportRequest_valid req then (Inl RequestValidationError, st, [])
      else
        let user = strip (req_username req);
            lim = int_or (req_limit req) 50
        in after (lichess_request user lim)
             (case requests_get env (lichess_request user lim) of
                Inl e \<Rightarrow> (Inl e, st, [])
              | Inr r \<Rightarrow>
                  if status_code r \<noteq> 200
                  then (Inl (HTTPException 400
                          (''lichess user not found or API error: '' @ user)), st, [])
                  else (case lichess_lines env user (iter_lines r) 0 st of
                          (Inl e, st') \<Rightarrow> (Inl e, st', [])
                        | (Inr n, st') \<Rightarrow>
                            (Inr \<lparr>resp_source = ''lichess'', resp_username = user,
                                  inserted = n\<rparr>, st', []))))"

section \<open>The listing of stored games\<close>

text \<open>\<open>d[k] = v\<close> on a dict: the key keeps its place, a new key goes last.\<close>

fun dict_set :: "document \<Rightarrow> string \<Rightarrow> bvalue \<Rightarrow> document" where
  "dict_set [] k v = [(k, v)]"
| "dict_set (kv # d) k v = (if fst kv = k then (k, v) # d else kv # dict_set d k v)"

fun bvalue_str :: "env \<Rightarrow> bvalue \<Rightarrow> string" where
  "bvalue_str env BNull = ''None''"
| "bvalue_str env (BBool b) = (if b then ''True'' else ''False'')"
| "bvalue_str env (BStr s) = s"
| "bvalue_str env (BDate t) = datetime_str env t"
| "bvalue_str env (BObjectId i) = objectid_str env i"

text \<open>
  \<open>if d.get(k) and isinstance(d[k], datetime): d[k] = d[k].isoformat()\<close>
\<close>

definition iso_field :: "env \<Rightarrow> string \<Rightarrow> document \<Rightarrow> document" where
  "iso_field env k d =
     (case map_of d k of Some (BDate t) \<Rightarrow> dict_set d k (BStr (isoformat env t)) | _ \<Rightarrow> d)"

text \<open>Lines 216 to 222: the body of the loop over the documents found.\<close>

definition serialize :: "env \<Rightarrow> document \<Rightarrow> document" where
  "serialize env d =
     iso_field env ''updated_at'' (iso_field env ''created_at'' (iso_field env ''end_time''
       (dict_set d ''_id''
          (BStr (bvalue_str env (case map_of d ''_id'' of None \<Rightarrow> BNull | Some v \<Rightarrow> v))))))"

record games_listing =
  count :: int
  items :: "document list"

text \<open>\<open>if source: filt["source"] = source\<close>, for an optional string.\<close>

definition filter_entry :: "string \<Rightarrow> string option \<Rightarrow> (string \<times> string) list" where
  "filter_entry k x = (case x of None \<Rightarrow> [] | Some s \<Rightarrow> if s \<noteq> [] then [(k, s)] else [])"

definition list_games ::
  "env \<Rightarrow> string option \<Rightarrow> string option \<Rightarrow> int \<Rightarrow> document list \<Rightarrow> error + games_listing" where
  "list_games env src user lim st =
     (if lim < 1 \<or> 200 < lim then Inl RequestValidationError
      else
        let filt = filter_entry ''source'' src @ filter_entry ''username'' user;
            docs = map (serialize env) (get_documents st filt lim)
        in Inr \<lparr>count = int (length docs), items = docs\<rparr>)"

section \<open>The demo session\<close>

record demo_session =
  sessionId :: string
  demo_speed :: string
  demo_minutes :: int
  demo_increment :: int

definition start_demo :: "env \<Rightarrow> string \<Rightarrow> int \<Rightarrow> int \<Rightarrow> error + demo_session" where
  "start_demo env spd minutes increment =
     (if spd \<notin> {''bullet'', ''blitz'', ''rapid''} then Inl (HTTPException 400 ''Invalid speed'')
      else if minutes < 0 \<or> increment < 0 then Inl (HTTPException 400 ''Invalid time values'')
      else Inr \<lparr>sessionId = uuid4 env, demo_speed = spd,
                demo_minutes = minutes, demo_increment = increment\<rparr>)"

text \<open>A client error is a response with a status in the 4xx range.\<close>

fun client_error :: "error + 'a \<Rightarrow> bool" where
  "client_error (Inl (HTTPException c d)) = (400 \<le> c \<and> c < 500)"
| "client_error (Inl RequestValidationError) = True"
| "client_error _ = False"

section \<open>The month window, in the words of the spec\<close>

text \<open>
  The spec: "the M most recent archives, newest first", the most recent ones being the
  last listed of the index. This definition follows those words; \<open>archive_list\<close> is
  what the code computes.
\<close>

definition most_recent_first :: "int \<Rightarrow> 'a list \<Rightarrow> 'a list" where
  "most_recent_first m xs = rev (drop (length xs - nat m) xs)"

section \<open>A sample environment\<close>

text \<open>
  Three monthly archives for the chess.com user \<open>magnus\<close>, the second of which cannot be
  fetched, and a stream of four lines for the lichess user \<open>alice\<close>. Any other address
  answers 404.
\<close>

definition game1 :: json where
  \<open>game1 = JObj [(''pgn'', JStr ''1. e4 e5''),
     (''white'', JObj [(''username'', JStr ''magnus''), (''result'', JStr ''win'')]),
     (''black'', JObj [(''username'', JStr ''hikaru''), (''result'', JStr ''resigned'')]),
     (''rated'', JBool True), (''time_class'', JStr ''blitz''),
     (''time_control'', JStr ''180''), (''end_time'', JInt 1700000000)]\<close>

definition game2 :: json where
  \<open>game2 = JObj [(''pgn'', JStr ''1. d4 d5'')]\<close>

definition game_no_pgn :: json where
  \<open>game_no_pgn = JObj [(''white'', JObj [(''username'', JStr ''magnus''), (''result'', JStr ''win'')]),
     (''black'', JObj [(''username'', JStr ''hikaru''), (''result'', JStr ''resigned'')]),
     (''rated'', JBool True)]\<close>

definition game3 :: json where
  \<open>game3 = JObj [(''pgn'', JStr ''1. c4'')]\<close>

definition line1 :: string where
  \<open>line1 = ''{"pgn": "1. e4 c5", "rated": "yes", "speed": "blitz"}''\<close>

definition line2 :: string where
  \<open>line2 = ''{"rated": true, "status": "mate"}''\<close>

definition sample_get :: "request \<Rightarrow> error + response" where
  "sample_get rq =
     (if url rq = JStr ''https://api.chess.com/pub/player/magnus/games/archives''
      then Inr \<lparr>status_code = 200,
                json_body = Some (JObj [(''archives'', JArr [JStr ''m1'', JStr ''m2'', JStr ''m3''])]),
                iter_lines = []\<rparr>
      else if url rq = JStr ''m3''
      then Inr \<lparr>status_code = 200,
                json_body = Some (JObj [(''games'', JArr [game1, game2, game_no_pgn])]),
                iter_lines = []\<rparr>
      else if url rq = JStr ''m1''
      then Inr \<lparr>status_code = 200, json_body = Some (JObj [(''games'', JArr [game3])]),
                iter_lines = []\<rparr>
      else if url rq = JStr ''https://lichess.org/api/games/user/alice''
      then Inr \<lparr>status_code = 200, json_body = None,
                iter_lines = ['''', ''not json'', line1, line2]\<rparr>
      else Inr \<lparr>status_code = 404, json_body = None, iter_lines = []\<rparr>)"

definition sample_env :: env where
  "sample_env = \<lparr>requests_get = sample_get,
     json_loads = (\<lambda>s. if s = line1
        then Some (JObj [(''pgn'', JStr ''1. e4 c5''), (''rated'', JStr ''yes''),
                         (''speed'', JStr ''blitz'')])
        else if s = line2
        then Some (JObj [(''rated'', JBool True), (''status'', JStr ''mate'')])
        else None),
     utcfromtimestamp = (\<lambda>n. Inr (Datetime n)),
     fromtimestamp_ms = (\<lambda>v. None),
     py_repr = (\<lambda>v. ''''),
     bool_lax = (\<lambda>v. None),
     mongo_match = (\<lambda>q v. False),
     utcnow = (\<lambda>k. Datetime (int k)),
     objectid_str = str_nat,
     datetime_str = (\<lambda>d. case d of Datetime n \<Rightarrow> str_int n),
     isoformat = (\<lambda>d. case d of Datetime n \<Rightarrow> str_int n),
     uuid4 = ''00000000-0000-4000-8000-000000000000''\<rparr>"

section \<open>Properties\<close>

subsection \<open>The demo session\<close>

text \<open>
  C10. For a speed among bullet, blitz and rapid, the demo session fails with a client
  error exactly when the minutes or the increment are negative; with both zero it
  succeeds and returns the generated session identifier.
\<close>

theorem start_demo_zero_ok:
  assumes "spd \<in> {''bullet'', ''blitz'', ''rapid''}"
  shows "(client_error (start_demo env spd minutes increment) \<longleftrightarrow> minutes < 0 \<or> increment < 0)
       \<and> (\<exists>s. start_demo env spd 0 0 = Inr s \<and> sessionId s = uuid4 env)"
  using assms by (auto simp: start_demo_def)

theorem start_demo_zero_ok_witness:
  "''blitz'' \<in> {''bullet'', ''blitz'', ''rapid''}
   \<and> \<not> client_error (start_demo sample_env ''blitz'' 0 0)
   \<and> client_error (start_demo sample_env ''blitz'' (-1) 0)
   \<and> (\<exists>s. start_demo sample_env ''blitz'' 0 0 = Inr s)"
  using start_demo_zero_ok [of "''blitz''" sample_env 0 0]
    start_demo_zero_ok [of "''blitz''" sample_env "-1" 0]
  by auto

subsection \<open>The loops of the chess.com import\<close>

lemma chesscom_game_step:
  "chesscom_game env user g n st = (r, st') \<Longrightarrow>
     (\<exists>e. r = Inl e \<and> st' = st) \<or> (r = Inr n \<and> st' = st) \<or>
     (r = Inr (n + 1) \<and> (\<exists>doc. st' = create_document env doc st))"
  by (auto simp: chesscom_game_def split: sum.splits if_splits)

lemma games_loop_bound:
  "games_loop env user lim gs n st = (Inr n', st') \<Longrightarrow> n \<le> lim \<Longrightarrow> n \<le> n' \<and> n' \<le> lim"
proof (induction gs arbitrary: n st)
  case Nil
  then show ?case by simp
next
  case (Cons g gs)
  show ?case
  proof (cases "lim \<le> n")
    case True
    with Cons.prems show ?thesis by simp
  next
    case False
    obtain r s where step: "chesscom_game env user g n st = (r, s)" by force
    with False Cons.prems obtain m where r: "r = Inr m" and rest: "games_loop env user lim gs m s = (Inr n', st')"
      by (cases r) auto
    from chesscom_game_step [OF step] r have "m = n \<or> m = n + 1" by auto
    with False have "n \<le> m" "m \<le> lim" by auto
    with Cons.IH [OF rest] show ?thesis by auto
  qed
qed

lemma games_loop_stop:
  "games_loop env user lim gs n st = (Inr n', st') \<Longrightarrow> lim \<le> n' \<Longrightarrow>
   games_loop env user lim (gs @ hs) n st = (Inr n', st')"
proof (induction gs arbitrary: n st)
  case Nil
  then show ?case by (cases hs) auto
next
  case (Cons g gs)
  show ?case
  proof (cases "lim \<le> n")
    case True
    with Cons.prems show ?thesis by simp
  next
    case False
    obtain r s where step: "chesscom_game env user g n st = (r, s)" by force
    with False Cons.prems obtain m where r: "r = Inr m" and rest: "games_loop env user lim gs m s = (Inr n', st')"
      by (cases r) auto
    from Cons.IH [OF rest Cons.prems(2)] False step r show ?thesis by simp
  qed
qed

lemma after_simps [simp]: "after rq (r, st, cs) = (r, st, rq # cs)"
  by (simp add: after_def)


lemma archives_loop_Cons_cases:
  obtains
    (raise) e where "requests_get env (archive_request u) = Inl e"
      "\<And>us. archives_loop env user lim (u # us) n st = (Inl e, st, [archive_request u])"
  | (skip) gr where "requests_get env (archive_request u) = Inr gr" "status_code gr \<noteq> 200"
      "\<And>us. archives_loop env user lim (u # us) n st =
         after (archive_request u) (archives_loop env user lim us n st)"
  | (nogames) gr e where "requests_get env (archive_request u) = Inr gr" "status_code gr = 200"
      "archive_games gr = Inl e"
      "\<And>us. archives_loop env user lim (u # us) n st = (Inl e, st, [archive_request u])"
  | (abort) gr games e s where "requests_get env (archive_request u) = Inr gr"
      "status_code gr = 200" "archive_games gr = Inr games"
      "games_loop env user lim games n st = (Inl e, s)"
      "\<And>us. archives_loop env user lim (u # us) n st = (Inl e, s, [archive_request u])"
  | (full) gr games m s where "requests_get env (archive_request u) = Inr gr"
      "status_code gr = 200" "archive_games gr = Inr games"
      "games_loop env user lim games n st = (Inr m, s)" "lim \<le> m"
      "\<And>us. archives_loop env user lim (u # us) n st = (Inr m, s, [archive_request u])"
  | (more) gr games m s where "requests_get env (archive_request u) = Inr gr"
      "status_code gr = 200" "archive_games gr = Inr games"
      "games_loop env user lim games n st = (Inr m, s)" "\<not> lim \<le> m"
      "\<And>us. archives_loop env user lim (u # us) n st =
         after (archive_request u) (archives_loop env user lim us m s)"
proof (cases "requests_get env (archive_request u)")
  case (Inl e)
  then show ?thesis using raise by simp
next
  case (Inr gr)
  show ?thesis
  proof (cases "status_code gr = 200")
    case False
    with Inr show ?thesis using skip by simp
  next
    case True
    show ?thesis
    proof (cases "archive_games gr")
      case (Inl e)
      with Inr True show ?thesis using nogames by simp
    next
      case games: (Inr games)
      obtain r s where inner: "games_loop env user lim games n st = (r, s)" by force
      show ?thesis
      proof (cases r)
        case (Inl e)
        with Inr True games inner show ?thesis using abort by simp
      next
        case m: (Inr m)
        show ?thesis
        proof (cases "lim \<le> m")
          case True
          with Inr \<open>status_code gr = 200\<close> games inner m show ?thesis using full by simp
        next
          case False
          with Inr \<open>status_code gr = 200\<close> games inner m show ?thesis using more by simp
        qed
      qed
    qed
  qed
qed

lemma after_eq_iff: "after rq x = (r, st, cs) \<longleftrightarrow> (\<exists>cs'. x = (r, st, cs') \<and> cs = rq # cs')"
  by (cases x) auto

lemma archives_loop_bound:
  "archives_loop env user lim us n st = (Inr n', st', cs) \<Longrightarrow> n \<le> lim \<Longrightarrow> n \<le> n' \<and> n' \<le> lim"
proof (induction us arbitrary: n st cs)
  case Nil
  then show ?case by simp
next
  case (Cons u us)
  show ?case
  proof (cases rule: archives_loop_Cons_cases [of env u user lim n st])
    case (skip gr)
    with Cons.prems Cons.IH show ?thesis by (auto simp: after_eq_iff)
  next
    case (full gr games m s)
    with Cons.prems games_loop_bound [of env user lim games n st m s] show ?thesis by auto
  next
    case (more gr games m s)
    with Cons.prems obtain cs' where rest: "archives_loop env user lim us m s = (Inr n', st', cs')"
      by (auto simp: after_eq_iff)
    from more Cons.prems games_loop_bound [of env user lim games n st m s]
    have "n \<le> m" "m \<le> lim" by auto
    with Cons.IH [OF rest] show ?thesis by auto
  qed (use Cons.prems in auto)
qed

lemma archives_loop_stop:
  "archives_loop env user lim us n st = (Inr n', st', cs) \<Longrightarrow> n < lim \<Longrightarrow> lim \<le> n' \<Longrightarrow>
   archives_loop env user lim (us @ vs) n st = (Inr n', st', cs)"
proof (induction us arbitrary: n st cs)
  case Nil
  then show ?case by simp
next
  case (Cons u us)
  show ?case
  proof (cases rule: archives_loop_Cons_cases [of env u user lim n st])
    case (skip gr)
    with Cons.prems obtain cs' where rest: "archives_loop env user lim us n st = (Inr n', st', cs')"
      and cs: "cs = archive_request u # cs'"
      by (auto simp: after_eq_iff)
    from Cons.IH [OF rest Cons.prems(2,3)] skip cs show ?thesis by simp
  next
    case (full gr games m s)
    with Cons.prems show ?thesis by simp
  next
    case (more gr games m s)
    with Cons.prems obtain cs' where rest: "archives_loop env user lim us m s = (Inr n', st', cs')"
      and cs: "cs = archive_request u # cs'"
      by (auto simp: after_eq_iff)
    from more have "m < lim" by simp
    from Cons.IH [OF rest this Cons.prems(3)] more cs show ?thesis by simp
  qed (use Cons.prems in auto)
qed


lemma int_or_valid_limit: "ImportRequest_valid req \<Longrightarrow> 1 \<le> int_or (req_limit req) 50"
  by (auto simp: ImportRequest_valid_def int_or_def split: option.splits)

lemma import_chesscom_bound:
  assumes "import_chesscom env req st = (Inr resp, st', cs)"
  shows "inserted resp \<le> int_or (req_limit req) 50"
proof -
  let ?user = "lower (strip (req_username req))"
  let ?lim = "int_or (req_limit req) 50"
  from assms have valid: "ImportRequest_valid req"
    by (auto simp: import_chesscom_def split: if_splits)
  from assms valid obtain us cs' where
    loop: "archives_loop env ?user ?lim us 0 st = (Inr (inserted resp), st', cs')"
    by (auto simp: import_chesscom_def Let_def after_eq_iff
             split: sum.splits if_splits prod.splits)
  from int_or_valid_limit [OF valid] have "0 \<le> ?lim" by simp
  from archives_loop_bound [OF loop this] show ?thesis by simp
qed

text \<open>
  C3. The count a chess.com import returns never exceeds the limit. Once the count has
  reached the limit, the inner loop processes no further game of the archive, and the
  outer loop, entered below the limit as every import enters it, fetches and processes
  no further archive.
\<close>

theorem chesscom_limit_cap:
  "(import_chesscom env req st = (Inr resp, st', cs) \<longrightarrow>
      inserted resp \<le> int_or (req_limit req) 50)
   \<and> (games_loop env user lim gs n st1 = (Inr n', st1') \<and> lim \<le> n' \<longrightarrow>
      games_loop env user lim (gs @ hs) n st1 = (Inr n', st1'))
   \<and> (archives_loop env user lim us m st2 = (Inr m', st2', cs2) \<and> m < lim \<and> lim \<le> m' \<longrightarrow>
      archives_loop env user lim (us @ vs) m st2 = (Inr m', st2', cs2))"
proof (intro conjI impI)
  assume "import_chesscom env req st = (Inr resp, st', cs)"
  then show "inserted resp \<le> int_or (req_limit req) 50"
    by (rule import_chesscom_bound)
next
  assume "games_loop env user lim gs n st1 = (Inr n', st1') \<and> lim \<le> n'"
  then show "games_loop env user lim (gs @ hs) n st1 = (Inr n', st1')"
    by (simp add: games_loop_stop)
next
  assume "archives_loop env user lim us m st2 = (Inr m', st2', cs2) \<and> m < lim \<and> lim \<le> m'"
  then show "archives_loop env user lim (us @ vs) m st2 = (Inr m', st2', cs2)"
    by (simp add: archives_loop_stop)
qed

theorem chesscom_limit_cap_witness:
  "(\<exists>resp st' cs.
      import_chesscom sample_env
        \<lparr>req_username = '' Magnus '', req_months = Some 3, req_limit = Some 1\<rparr> []
        = (Inr resp, st', cs) \<and> inserted resp \<le> 1)
   \<and> (\<exists>st'. games_loop sample_env ''magnus'' 1 [game1] 0 [] = (Inr 1, st')
         \<and> games_loop sample_env ''magnus'' 1 ([game1] @ [game2, game_no_pgn]) 0 [] = (Inr 1, st'))
   \<and> (\<exists>st' cs. archives_loop sample_env ''magnus'' 1 [JStr ''m3''] 0 [] = (Inr 1, st', cs)
         \<and> archives_loop sample_env ''magnus'' 1 ([JStr ''m3''] @ [JStr ''m2'', JStr ''m1'']) 0 []
            = (Inr 1, st', cs))"
proof -
  let ?req = "\<lparr>req_username = '' Magnus '', req_months = Some 3, req_limit = Some 1\<rparr>"
  have "fst (import_chesscom sample_env ?req [])
      = Inr \<lparr>resp_source = ''chesscom'', resp_username = ''magnus'', inserted = 1\<rparr>"
    by code_simp
  then obtain resp st' cs where run: "import_chesscom sample_env ?req [] = (Inr resp, st', cs)"
    by (metis prod.collapse)
  have "fst (games_loop sample_env ''magnus'' 1 [game1] 0 []) = Inr 1"
    by code_simp
  then obtain st1 where inner: "games_loop sample_env ''magnus'' 1 [game1] 0 [] = (Inr 1, st1)"
    by (metis prod.collapse)
  have "fst (archives_loop sample_env ''magnus'' 1 [JStr ''m3''] 0 []) = Inr 1"
    by code_simp
  then obtain st2 cs2 where
    outer: "archives_loop sample_env ''magnus'' 1 [JStr ''m3''] 0 [] = (Inr 1, st2, cs2)"
    by (metis prod.collapse)
  have lim: "int_or (req_limit ?req) 50 = 1" by (simp add: int_or_def)
  note cap = chesscom_limit_cap [of sample_env ?req "[]" resp st' cs "''magnus''" 1 "[game1]" 0 "[]" 1 st1
      "[game2, game_no_pgn]" "[JStr ''m3'']" 0 "[]" 1 st2 cs2 "[JStr ''m2'', JStr ''m1'']"]
  from cap run lim have c1: "inserted resp \<le> 1" by simp
  from cap inner have c2:
    "games_loop sample_env ''magnus'' 1 ([game1] @ [game2, game_no_pgn]) 0 [] = (Inr 1, st1)"
    by simp
  from cap outer have c3:
    "archives_loop sample_env ''magnus'' 1 ([JStr ''m3''] @ [JStr ''m2'', JStr ''m1'']) 0 []
       = (Inr 1, st2, cs2)"
    by simp
  from run c1 inner c2 outer c3 show ?thesis by blast
qed


subsection \<open>Items that are skipped\<close>

lemma dict_get_obj: "dict_get (JObj kvs) k JNull = Inr (obj_get kvs k)"
  by (simp add: obj_get_def)

lemma games_loop_full: "lim \<le> n \<Longrightarrow> games_loop env user lim gs n st = (Inr n, st)"
  by (cases gs) auto

lemma chesscom_game_no_pgn:
  "\<not> truthy (obj_get kvs ''pgn'') \<Longrightarrow> chesscom_game env user (JObj kvs) n st = (Inr n, st)"
  by (simp add: chesscom_game_def obj_get_def)

lemma games_loop_skip:
  assumes "chesscom_game env user g = (\<lambda>n st. (Inr n, st))"
  shows "games_loop env user lim (xs @ g # ys) n st = games_loop env user lim (xs @ ys) n st"
proof (induction xs arbitrary: n st)
  case Nil
  show ?case using assms by (simp add: games_loop_full)
next
  case (Cons x xs)
  then show ?case by (simp split: prod.splits sum.splits)
qed

lemma lichess_game_no_pgn:
  "\<not> truthy (obj_get kvs ''pgn'') \<Longrightarrow> \<not> truthy (obj_get kvs ''pgnStr'') \<Longrightarrow>
   lichess_game env user (JObj kvs) n st = (Inr n, st)"
  by (simp add: lichess_game_def lichess_pgn_def ebind_def obj_get_def)

lemma lichess_lines_skip:
  assumes "lichess_lines env user [l] = (\<lambda>n st. (Inr n, st))"
  shows "lichess_lines env user (xs @ l # ys) n st = lichess_lines env user (xs @ ys) n st"
proof (induction xs arbitrary: n st)
  case Nil
  have "lichess_lines env user [l] n st = (Inr n, st)" using assms by simp
  then show ?case
    by (auto split: if_splits option.splits prod.splits sum.splits)
next
  case (Cons x xs)
  then show ?case by (simp split: prod.splits sum.splits option.splits)
qed

text \<open>
  C6. A game whose PGN is absent or empty (any value Python takes as false) is skipped by
  both imports before any other field is read: the count and the store stay as they are,
  and each loop behaves as if the game were not in its input.
\<close>

theorem no_pgn_never_persisted:
  "(\<not> truthy (obj_get kvs ''pgn'') \<longrightarrow>
      chesscom_game env user (JObj kvs) n st = (Inr n, st) \<and>
      games_loop env user lim (xs @ JObj kvs # ys) n st = games_loop env user lim (xs @ ys) n st)
   \<and> (\<not> truthy (obj_get kvs ''pgn'') \<and> \<not> truthy (obj_get kvs ''pgnStr'') \<longrightarrow>
      lichess_game env user (JObj kvs) n st = (Inr n, st) \<and>
      (json_loads env l = Some (JObj kvs) \<longrightarrow>
         lichess_lines env user (ls @ l # ms) n st = lichess_lines env user (ls @ ms) n st))"
proof (intro conjI impI)
  assume a: "\<not> truthy (obj_get kvs ''pgn'')"
  then show "chesscom_game env user (JObj kvs) n st = (Inr n, st)"
    by (rule chesscom_game_no_pgn)
  from a have "chesscom_game env user (JObj kvs) = (\<lambda>n st. (Inr n, st))"
    by (intro ext) (rule chesscom_game_no_pgn)
  then show "games_loop env user lim (xs @ JObj kvs # ys) n st = games_loop env user lim (xs @ ys) n st"
    by (rule games_loop_skip)
next
  assume a: "\<not> truthy (obj_get kvs ''pgn'') \<and> \<not> truthy (obj_get kvs ''pgnStr'')"
  then show "lichess_game env user (JObj kvs) n st = (Inr n, st)"
    by (simp add: lichess_game_no_pgn)
  assume l: "json_loads env l = Some (JObj kvs)"
  from a l have "lichess_lines env user [l] = (\<lambda>n st. (Inr n, st))"
    by (intro ext) (simp add: lichess_game_no_pgn)
  then show "lichess_lines env user (ls @ l # ms) n st = lichess_lines env user (ls @ ms) n st"
    by (rule lichess_lines_skip)
qed

theorem no_pgn_never_persisted_witness:
  "\<not> truthy (obj_get [(''rated'', JBool True), (''status'', JStr ''mate'')] ''pgn'')
   \<and> \<not> truthy (obj_get [(''rated'', JBool True), (''status'', JStr ''mate'')] ''pgnStr'')
   \<and> json_loads sample_env line2 = Some (JObj [(''rated'', JBool True), (''status'', JStr ''mate'')])
   \<and> chesscom_game sample_env ''magnus'' (JObj [(''rated'', JBool True), (''status'', JStr ''mate'')]) 0 []
       = (Inr 0, [])
   \<and> games_loop sample_env ''magnus'' 50
        ([game1] @ JObj [(''rated'', JBool True), (''status'', JStr ''mate'')] # [game2]) 0 []
       = games_loop sample_env ''magnus'' 50 ([game1] @ [game2]) 0 []
   \<and> lichess_game sample_env ''alice'' (JObj [(''rated'', JBool True), (''status'', JStr ''mate'')]) 0 []
       = (Inr 0, [])
   \<and> lichess_lines sample_env ''alice'' ([line1] @ line2 # [line1]) 0 []
       = lichess_lines sample_env ''alice'' ([line1] @ [line1]) 0 []"
proof -
  let ?kvs = "[(''rated'', JBool True), (''status'', JStr ''mate'')]"
  have h1: "\<not> truthy (obj_get ?kvs ''pgn'')" by (simp add: obj_get_def)
  have h2: "\<not> truthy (obj_get ?kvs ''pgnStr'')" by (simp add: obj_get_def)
  have h3: "json_loads sample_env line2 = Some (JObj ?kvs)" by code_simp
  from no_pgn_never_persisted [of ?kvs sample_env "''magnus''" 0 "[]" 50 "[game1]" "[game2]"
      line2 "[line1]" "[line1]"] h1 h2
  have a: "chesscom_game sample_env ''magnus'' (JObj ?kvs) 0 [] = (Inr 0, [])"
    and b: "games_loop sample_env ''magnus'' 50 ([game1] @ JObj ?kvs # [game2]) 0 []
       = games_loop sample_env ''magnus'' 50 ([game1] @ [game2]) 0 []"
    by blast+
  from no_pgn_never_persisted [of ?kvs sample_env "''alice''" 0 "[]" 50 "[game1]" "[game2]"
      line2 "[line1]" "[line1]"] h1 h2 h3
  have c: "lichess_game sample_env ''alice'' (JObj ?kvs) 0 [] = (Inr 0, [])"
    and d: "lichess_lines sample_env ''alice'' ([line1] @ line2 # [line1]) 0 []
       = lichess_lines sample_env ''alice'' ([line1] @ [line1]) 0 []"
    by blast+
  from h1 h2 h3 a b c d show ?thesis by blast
qed

lemma fst_after [simp]: "fst (after rq x) = fst x"
  by (cases x) simp

lemma store_after [simp]: "fst (snd (after rq x)) = fst (snd x)"
  by (cases x) simp

lemma archives_loop_skip:
  assumes "requests_get env (archive_request u) = Inr gr" "status_code gr \<noteq> 200"
  shows "fst (archives_loop env user lim (xs @ u # ys) n st)
           = fst (archives_loop env user lim (xs @ ys) n st)
       \<and> fst (snd (archives_loop env user lim (xs @ u # ys) n st))
           = fst (snd (archives_loop env user lim (xs @ ys) n st))"
proof (induction xs arbitrary: n st)
  case Nil
  from assms show ?case by simp
next
  case (Cons x xs)
  show ?case
    by (cases rule: archives_loop_Cons_cases [of env x user lim n st]) (simp_all add: Cons.IH)
qed

text \<open>
  C7. An archive whose fetch does not answer 200 is skipped: the outcome of the chess.com
  loop (a count or an exception) and the store it leaves are those of the loop without
  that archive. A blank line and a line that \<open>json.loads\<close> rejects are skipped: the lichess
  loop behaves as if the line were not in the stream. So the import returns a count
  whenever it does without the failing item.
\<close>

theorem item_failures_skipped:
  "(requests_get env (archive_request u) = Inr gr \<and> status_code gr \<noteq> 200 \<longrightarrow>
      fst (archives_loop env user lim (xs @ u # ys) n st)
        = fst (archives_loop env user lim (xs @ ys) n st) \<and>
      fst (snd (archives_loop env user lim (xs @ u # ys) n st))
        = fst (snd (archives_loop env user lim (xs @ ys) n st)))
   \<and> (l = [] \<or> json_loads env l = None \<longrightarrow>
      lichess_lines env user (ls @ l # ms) n st = lichess_lines env user (ls @ ms) n st)"
proof (intro conjI impI)
  assume a: "requests_get env (archive_request u) = Inr gr \<and> status_code gr \<noteq> 200"
  then show "fst (archives_loop env user lim (xs @ u # ys) n st)
        = fst (archives_loop env user lim (xs @ ys) n st)"
    using archives_loop_skip [of env u gr] by blast
  from a show "fst (snd (archives_loop env user lim (xs @ u # ys) n st))
        = fst (snd (archives_loop env user lim (xs @ ys) n st))"
    using archives_loop_skip [of env u gr] by blast
next
  assume "l = [] \<or> json_loads env l = None"
  then have "lichess_lines env user [l] = (\<lambda>n st. (Inr n, st))"
    by (intro ext) auto
  then show "lichess_lines env user (ls @ l # ms) n st = lichess_lines env user (ls @ ms) n st"
    by (rule lichess_lines_skip)
qed

theorem item_failures_skipped_witness:
  "requests_get sample_env (archive_request (JStr ''m2''))
      = Inr \<lparr>status_code = 404, json_body = None, iter_lines = []\<rparr>
   \<and> json_loads sample_env ''not json'' = None
   \<and> fst (archives_loop sample_env ''magnus'' 50 ([JStr ''m3''] @ JStr ''m2'' # [JStr ''m1'']) 0 [])
       = fst (archives_loop sample_env ''magnus'' 50 ([JStr ''m3''] @ [JStr ''m1'']) 0 [])
   \<and> fst (archives_loop sample_env ''magnus'' 50 ([JStr ''m3''] @ [JStr ''m1'']) 0 []) = Inr 3
   \<and> lichess_lines sample_env ''alice'' ([line1] @ ''not json'' # [line2]) 0 []
       = lichess_lines sample_env ''alice'' ([line1] @ [line2]) 0 []
   \<and> lichess_lines sample_env ''alice'' ([line1] @ [] # [line2]) 0 []
       = lichess_lines sample_env ''alice'' ([line1] @ [line2]) 0 []
   \<and> fst (lichess_lines sample_env ''alice'' ([line1] @ [line2]) 0 []) = Inr 1"
proof -
  let ?gr = "\<lparr>status_code = 404, json_body = None, iter_lines = []\<rparr>"
  have h1: "requests_get sample_env (archive_request (JStr ''m2'')) = Inr ?gr"
    by code_simp
  have h2: "status_code ?gr \<noteq> 200" by simp
  have h3: "json_loads sample_env ''not json'' = None" by code_simp
  from item_failures_skipped [of sample_env "JStr ''m2''" ?gr "''magnus''" 50 "[JStr ''m3'']"
      "[JStr ''m1'']" 0 "[]" "''not json''" "[line1]" "[line2]"] h1 h2 h3
  have a: "fst (archives_loop sample_env ''magnus'' 50 ([JStr ''m3''] @ JStr ''m2'' # [JStr ''m1'']) 0 [])
       = fst (archives_loop sample_env ''magnus'' 50 ([JStr ''m3''] @ [JStr ''m1'']) 0 [])"
    by blast
  from item_failures_skipped [of sample_env "JStr ''m2''" ?gr "''alice''" 50 "[JStr ''m3'']"
      "[JStr ''m1'']" 0 "[]" "''not json''" "[line1]" "[line2]"] h3
  have b: "lichess_lines sample_env ''alice'' ([line1] @ ''not json'' # [line2]) 0 []
       = lichess_lines sample_env ''alice'' ([line1] @ [line2]) 0 []"
    by blast
  from item_failures_skipped [of sample_env "JStr ''m2''" ?gr "''alice''" 50 "[JStr ''m3'']"
      "[JStr ''m1'']" 0 "[]" "[]" "[line1]" "[line2]"]
  have c: "lichess_lines sample_env ''alice'' ([line1] @ [] # [line2]) 0 []
       = lichess_lines sample_env ''alice'' ([line1] @ [line2]) 0 []"
    by blast
  have d: "fst (archives_loop sample_env ''magnus'' 50 ([JStr ''m3''] @ [JStr ''m1'']) 0 []) = Inr 3"
    by code_simp
  have e: "fst (lichess_lines sample_env ''alice'' ([line1] @ [line2]) 0 []) = Inr 1"
    by code_simp
  from h1 h3 a b c d e show ?thesis by blast
qed


subsection \<open>The fields of a stored game\<close>

lemma ebind_Inr_iff: "ebind m f = Inr y \<longleftrightarrow> (\<exists>x. m = Inr x \<and> f x = Inr y)"
  by (cases m) (auto simp: ebind_def)

lemma Game_fields:
  assumes "Game env src user p f = Inr doc"
  shows "source doc = src" "username doc = user" "validate_str p = Inr (pgn doc)"
    "validate_opt_bool env (raw_rated f) = Inr (rated doc)"
    "validate_opt_str (raw_result f) = Inr (result doc)"
  using assms by (auto simp: Game_def ebind_Inr_iff)

lemma map_of_created [simp]:
  "k \<noteq> ''created_at'' \<Longrightarrow> map_of (d @ [(''created_at'', v)]) k = map_of d k"
  by (induction d) auto

lemma create_document_fields:
  "create_document env doc st = st @ [game_dump doc @ [(''created_at'', BDate (utcnow env (length st)))]]"
  "map_of (game_dump doc @ [(''created_at'', v)]) ''source'' = Some (BStr (source doc))"
  "map_of (game_dump doc @ [(''created_at'', v)]) ''pgn'' = Some (BStr (pgn doc))"
  "map_of (game_dump doc @ [(''created_at'', v)]) ''rated'' = Some (bopt_bool (rated doc))"
  "map_of (game_dump doc @ [(''created_at'', v)]) ''result'' = Some (bopt_str (result doc))"
  by (simp_all add: create_document_def game_dump_def)

lemma lichess_fields_rated:
  assumes "lichess_fields env (JObj kvs) = Inr f"
  shows "raw_rated f = (if obj_get kvs ''rated'' = JNull then JNull
                        else JBool (truthy (obj_get kvs ''rated'')))"
  using assms by (auto simp: lichess_fields_def ebind_Inr_iff obj_get_def)

lemma lichess_game_inserts:
  assumes "lichess_game env user g n st = (Inr n', st')" "st' \<noteq> st"
  obtains p f doc where "lichess_pgn g = Inr p" "truthy p" "lichess_fields env g = Inr f"
    "Game env ''lichess'' user p f = Inr doc" "st' = create_document env doc st" "n' = n + 1"
  using assms by (auto simp: lichess_game_def split: sum.splits if_splits)

text \<open>
  C9. When the lichess import stores a game, the stored \<open>rated\<close> field is the truth value
  of the source's \<open>rated\<close> value if that value is present and not null (so a non-empty
  string is stored as true), and null if the source has no \<open>rated\<close> value or a null one.
\<close>

theorem lichess_rated_coercion:
  assumes "lichess_game env user (JObj kvs) n st = (Inr n', st')" and "st' \<noteq> st"
  shows "\<exists>d. st' = st @ [d] \<and>
           map_of d ''rated'' =
             Some (if obj_get kvs ''rated'' = JNull then BNull
                   else BBool (truthy (obj_get kvs ''rated'')))"
proof -
  from assms obtain p f doc where f: "lichess_fields env (JObj kvs) = Inr f"
    and doc: "Game env ''lichess'' user p f = Inr doc"
    and st': "st' = create_document env doc st"
    by (rule lichess_game_inserts)
  from Game_fields(4) [OF doc] lichess_fields_rated [OF f]
  have "rated doc = (if obj_get kvs ''rated'' = JNull then None
                     else Some (truthy (obj_get kvs ''rated'')))"
    by (auto split: if_splits)
  then have b: "bopt_bool (rated doc) = (if obj_get kvs ''rated'' = JNull then BNull
                   else BBool (truthy (obj_get kvs ''rated'')))"
    by (simp add: bopt_bool_def)
  let ?d = "game_dump doc @ [(''created_at'', BDate (utcnow env (length st)))]"
  from st' have "st' = st @ [?d]"
    by (simp only: create_document_fields(1))
  moreover have "map_of ?d ''rated'' = Some (if obj_get kvs ''rated'' = JNull then BNull
                   else BBool (truthy (obj_get kvs ''rated'')))"
    by (simp only: create_document_fields(4) b)
  ultimately show ?thesis by blast
qed

theorem lichess_rated_coercion_witness:
  "\<exists>d. lichess_game sample_env ''alice''
         (JObj [(''pgn'', JStr ''1. e4 c5''), (''rated'', JStr ''yes''), (''speed'', JStr ''blitz'')])
         0 [] = (Inr 1, [d])
       \<and> map_of d ''rated'' = Some (BBool True)"
proof -
  let ?kvs = "[(''pgn'', JStr ''1. e4 c5''), (''rated'', JStr ''yes''), (''speed'', JStr ''blitz'')]"
  have "fst (lichess_game sample_env ''alice'' (JObj ?kvs) 0 []) = Inr 1"
    and ne: "snd (lichess_game sample_env ''alice'' (JObj ?kvs) 0 []) \<noteq> []"
    by code_simp+
  then obtain st' where run: "lichess_game sample_env ''alice'' (JObj ?kvs) 0 [] = (Inr 1, st')"
    and "st' \<noteq> []"
    by (metis prod.collapse)
  from lichess_rated_coercion [OF this] show ?thesis
    using run by (auto simp: obj_get_def)
qed


subsection \<open>The result of a chess.com game\<close>

lemma ebind_Inr [simp]: "ebind (Inr x) f = f x"
  by (simp add: ebind_def)

lemma ebind_Inl [simp]: "ebind (Inl e) f = Inl e"
  by (simp add: ebind_def)

lemma str_add_Inr_iff: "str_add a b = Inr c \<longleftrightarrow> (\<exists>x y. a = JStr x \<and> b = JStr y \<and> c = JStr (x @ y))"
  by (cases "(a, b)" rule: str_add.cases) auto

lemma dict_get_Inr_iff: "dict_get v k d = Inr x \<longleftrightarrow>
    (\<exists>kvs. v = JObj kvs \<and> x = (case map_of kvs k of None \<Rightarrow> d | Some y \<Rightarrow> y))"
  by (cases v) auto

text \<open>
  When the extraction of line 95 to 102 succeeds, the result is the concatenation of the
  two result strings if both player objects are present, and \<open>None\<close> if one is missing.
\<close>

lemma chesscom_fields_result:
  assumes "chesscom_fields env (JObj kvs) = Inr f"
  shows "(truthy (obj_get kvs ''white'') \<and> truthy (obj_get kvs ''black'') \<longrightarrow>
           (\<exists>w b x y. obj_get kvs ''white'' = JObj w \<and> obj_get kvs ''black'' = JObj b \<and>
              obj_get w ''result'' = JStr x \<and> obj_get b ''result'' = JStr y \<and>
              raw_result f = JStr (x @ ''/'' @ y)))
       \<and> (\<not> (truthy (obj_get kvs ''white'') \<and> truthy (obj_get kvs ''black'')) \<longrightarrow>
           raw_result f = JNull)"
  using assms
  by (auto simp: chesscom_fields_def ebind_Inr_iff dict_get_Inr_iff str_add_Inr_iff obj_get_def
        py_or_def split: if_splits)

text \<open>
  When both player objects are present and the white one has no result that is a string,
  line 97 raises.
\<close>

lemma chesscom_fields_result_raises:
  assumes "obj_get kvs ''white'' = JObj w" "w \<noteq> []" "obj_get kvs ''black'' = JObj b" "b \<noteq> []"
    and "\<forall>x. obj_get w ''result'' \<noteq> JStr x"
  shows "chesscom_fields env (JObj kvs) = Inl TypeError"
proof -
  from assms(5) have "str_add (obj_get w ''result'') (JStr ''/'') = Inl TypeError"
    by (cases "obj_get w ''result''") auto
  with assms(1-4) show ?thesis
    unfolding obj_get_def by (simp add: chesscom_fields_def py_or_def)
qed

text \<open>
  C1. The white player object of this game has a user name and no result: the import
  raises \<open>TypeError\<close> on it instead of storing the game with an absent result.
\<close>

theorem chesscom_result_missing_raises:
  "chesscom_game sample_env ''magnus''
     (JObj [(''pgn'', JStr ''1. e4 e5''),
            (''white'', JObj [(''username'', JStr ''magnus'')]),
            (''black'', JObj [(''username'', JStr ''hikaru''), (''result'', JStr ''win'')])])
     0 [] = (Inl TypeError, [])
   \<and> games_loop sample_env ''magnus'' 50
     [JObj [(''pgn'', JStr ''1. e4 e5''),
            (''white'', JObj [(''username'', JStr ''magnus'')]),
            (''black'', JObj [(''username'', JStr ''hikaru''), (''result'', JStr ''win'')])],
      game2] 0 [] = (Inl TypeError, [])"
  by code_simp


subsection \<open>The listing\<close>

lemma map_of_dict_set: "map_of (dict_set d k v) k' = (if k' = k then Some v else map_of d k')"
  by (induction d) auto

lemma map_of_iso_field: "k' \<noteq> k \<Longrightarrow> map_of (iso_field env k d) k' = map_of d k'"
  by (simp add: iso_field_def map_of_dict_set split: option.splits bvalue.splits)

lemma map_of_serialize:
  "k \<notin> {''_id'', ''end_time'', ''created_at'', ''updated_at''} \<Longrightarrow>
   map_of (serialize env d) k = map_of d k"
  by (simp add: serialize_def map_of_iso_field map_of_dict_set)

lemma get_documents_match:
  "d \<in> set (get_documents st filt n) \<Longrightarrow> (k, v) \<in> set filt \<Longrightarrow> map_of d k = Some (BStr v)"
  by (fastforce simp: get_documents_def list_all_iff dest!: in_set_takeD)

lemma get_documents_length: "0 \<le> n \<Longrightarrow> int (length (get_documents st filt n)) \<le> n"
  by (simp add: get_documents_def)

lemma get_documents_unfiltered: "get_documents st [] n = take (nat n) st"
  by (simp add: get_documents_def)

lemma filter_entry_set: "s \<noteq> [] \<Longrightarrow> (k, s) \<in> set (filter_entry k (Some s))"
  by (simp add: filter_entry_def)

lemma filter_entry_empty: "x = None \<or> x = Some [] \<Longrightarrow> filter_entry k x = []"
  by (auto simp: filter_entry_def)

text \<open>
  C8, as the code has it. A listing with a limit from 1 to 200 succeeds. Every item has
  the source asked for and the user name asked for, where the filter is a non-empty
  string; a filter that is omitted or empty is not applied, and with both filters so the
  items are the first documents of the store. The count is the number of items and is at
  most the limit.
\<close>

theorem list_games_filters:
  assumes "1 \<le> lim" and "lim \<le> 200"
  shows "\<exists>res. list_games env src user lim st = Inr res
      \<and> (\<forall>d \<in> set (items res).
            (\<forall>s. src = Some s \<and> s \<noteq> [] \<longrightarrow> map_of d ''source'' = Some (BStr s)) \<and>
            (\<forall>s. user = Some s \<and> s \<noteq> [] \<longrightarrow> map_of d ''username'' = Some (BStr s)))
      \<and> count res = int (length (items res))
      \<and> count res \<le> lim
      \<and> ((src = None \<or> src = Some []) \<and> (user = None \<or> user = Some []) \<longrightarrow>
            items res = map (serialize env) (take (nat lim) st))"
proof -
  let ?filt = "filter_entry ''source'' src @ filter_entry ''username'' user"
  let ?docs = "map (serialize env) (get_documents st ?filt lim)"
  let ?res = "\<lparr>count = int (length ?docs), items = ?docs\<rparr>"
  from assms have run: "list_games env src user lim st = Inr ?res"
    by (simp add: list_games_def Let_def)
  have match: "(\<forall>s. src = Some s \<and> s \<noteq> [] \<longrightarrow> map_of d ''source'' = Some (BStr s)) \<and>
      (\<forall>s. user = Some s \<and> s \<noteq> [] \<longrightarrow> map_of d ''username'' = Some (BStr s))"
    if "d \<in> set ?docs" for d
  proof -
    from that obtain d0 where d0: "d0 \<in> set (get_documents st ?filt lim)"
      and d: "d = serialize env d0"
      by auto
    have "map_of d0 ''source'' = Some (BStr s)" if "src = Some s" "s \<noteq> []" for s
      using that by (intro get_documents_match [OF d0]) (simp add: filter_entry_set)
    moreover have "map_of d0 ''username'' = Some (BStr s)" if "user = Some s" "s \<noteq> []" for s
      using that by (intro get_documents_match [OF d0]) (simp add: filter_entry_set)
    ultimately show ?thesis
      by (simp add: d map_of_serialize)
  qed
  from assms get_documents_length [of lim st ?filt] have "int (length ?docs) \<le> lim"
    by simp
  moreover have "?docs = map (serialize env) (take (nat lim) st)"
    if "(src = None \<or> src = Some []) \<and> (user = None \<or> user = Some [])"
    using that by (simp add: filter_entry_empty get_documents_unfiltered)
  moreover from match have "\<forall>d \<in> set ?docs.
            (\<forall>s. src = Some s \<and> s \<noteq> [] \<longrightarrow> map_of d ''source'' = Some (BStr s)) \<and>
            (\<forall>s. user = Some s \<and> s \<noteq> [] \<longrightarrow> map_of d ''username'' = Some (BStr s))"
    by blast
  ultimately show ?thesis
    using run by (intro exI [of _ ?res]) (simp del: set_map)
qed

theorem list_games_filters_witness:
  "(1::int) \<le> 10 \<and> (10::int) \<le> 200
   \<and> list_games sample_env (Some ''lichess'') (Some ''alice'') 10
        [[(''source'', BStr ''chesscom''), (''username'', BStr ''alice'')],
         [(''source'', BStr ''lichess''), (''username'', BStr ''alice'')],
         [(''source'', BStr ''lichess''), (''username'', BStr ''bob'')]]
      = Inr \<lparr>count = 1,
             items = [[(''source'', BStr ''lichess''), (''username'', BStr ''alice''),
                       (''_id'', BStr ''None'')]]\<rparr>
   \<and> map_of [(''source'', BStr ''lichess''), (''username'', BStr ''alice''),
              (''_id'', BStr ''None'')] ''source'' = Some (BStr ''lichess'')
   \<and> map_of [(''source'', BStr ''lichess''), (''username'', BStr ''alice''),
              (''_id'', BStr ''None'')] ''username'' = Some (BStr ''alice'')"
proof -
  let ?st = "[[(''source'', BStr ''chesscom''), (''username'', BStr ''alice'')],
         [(''source'', BStr ''lichess''), (''username'', BStr ''alice'')],
         [(''source'', BStr ''lichess''), (''username'', BStr ''bob'')]]"
  let ?d = "[(''source'', BStr ''lichess''), (''username'', BStr ''alice''),
             (''_id'', BStr ''None'')]"
  have run: "list_games sample_env (Some ''lichess'') (Some ''alice'') 10 ?st
      = Inr \<lparr>count = 1, items = [?d]\<rparr>"
    by code_simp
  from list_games_filters [of 10 sample_env "Some ''lichess''" "Some ''alice''" ?st]
  obtain res where res: "list_games sample_env (Some ''lichess'') (Some ''alice'') 10 ?st = Inr res"
    and all: "\<forall>d \<in> set (items res).
            (\<forall>s. Some ''lichess'' = Some s \<and> s \<noteq> [] \<longrightarrow> map_of d ''source'' = Some (BStr s)) \<and>
            (\<forall>s. Some ''alice'' = Some s \<and> s \<noteq> [] \<longrightarrow> map_of d ''username'' = Some (BStr s))"
    by auto
  from res run have "items res = [?d]" by auto
  with all have "map_of ?d ''source'' = Some (BStr ''lichess'')"
    "map_of ?d ''username'' = Some (BStr ''alice'')"
    by auto
  with run show ?thesis by simp
qed

text \<open>
  C8, as stated, fails for a filter supplied as the empty string: the listing returns a
  document whose source is not the empty string.
\<close>

theorem list_games_empty_filter_counterexample:
  "list_games sample_env (Some []) None 50
     [[(''_id'', BObjectId 7), (''source'', BStr ''chesscom''), (''username'', BStr ''magnus'')]]
   = Inr \<lparr>count = 1,
          items = [[(''_id'', BStr ''7''), (''source'', BStr ''chesscom''),
                    (''username'', BStr ''magnus'')]]\<rparr>
   \<and> map_of [(''_id'', BStr ''7''), (''source'', BStr ''chesscom''),
              (''username'', BStr ''magnus'')] ''source'' \<noteq> Some (BStr [])"
  by code_simp


subsection \<open>The user name of an import request\<close>

lemma after_head: "\<exists>r st' cs. after rq x = (r, st', rq # cs)"
  by (cases x) simp

text \<open>
  C2, as the code has it. The user name of a request that passes the schema is trimmed
  (and put in lower case for chess.com) and is not tested for being empty: the first
  thing either import does is the upstream request for that name. The request is
  rejected with status 400 after that call, when the upstream answers with a status other
  than 200; the store is then unchanged.
\<close>

theorem import_username_not_checked:
  assumes "ImportRequest_valid req"
  shows "(\<exists>r st' cs. import_chesscom env req st
            = (r, st', chesscom_index_request (lower (strip (req_username req))) # cs))
     \<and> (\<exists>r st' cs. import_lichess env req st
            = (r, st', lichess_request (strip (req_username req)) (int_or (req_limit req) 50) # cs))
     \<and> (\<forall>resp. requests_get env (chesscom_index_request (lower (strip (req_username req))))
                  = Inr resp \<and> status_code resp \<noteq> 200 \<longrightarrow>
            import_chesscom env req st
              = (Inl (HTTPException 400 (''chess.com user not found or no archives: ''
                       @ lower (strip (req_username req)))), st,
                 [chesscom_index_request (lower (strip (req_username req)))]))
     \<and> (\<forall>resp. requests_get env (lichess_request (strip (req_username req))
                    (int_or (req_limit req) 50)) = Inr resp \<and> status_code resp \<noteq> 200 \<longrightarrow>
            import_lichess env req st
              = (Inl (HTTPException 400 (''lichess user not found or API error: ''
                       @ strip (req_username req))), st,
                 [lichess_request (strip (req_username req)) (int_or (req_limit req) 50)]))"
proof (intro conjI allI impI)
  from assms show "\<exists>r st' cs. import_chesscom env req st
            = (r, st', chesscom_index_request (lower (strip (req_username req))) # cs)"
    by (simp add: import_chesscom_def Let_def after_head)
  from assms show "\<exists>r st' cs. import_lichess env req st
            = (r, st', lichess_request (strip (req_username req)) (int_or (req_limit req) 50) # cs)"
    by (simp add: import_lichess_def Let_def after_head)
next
  fix resp
  assume "requests_get env (chesscom_index_request (lower (strip (req_username req))))
                  = Inr resp \<and> status_code resp \<noteq> 200"
  with assms show "import_chesscom env req st
              = (Inl (HTTPException 400 (''chess.com user not found or no archives: ''
                       @ lower (strip (req_username req)))), st,
                 [chesscom_index_request (lower (strip (req_username req)))])"
    by (simp add: import_chesscom_def Let_def)
next
  fix resp
  assume "requests_get env (lichess_request (strip (req_username req))
                    (int_or (req_limit req) 50)) = Inr resp \<and> status_code resp \<noteq> 200"
  with assms show "import_lichess env req st
              = (Inl (HTTPException 400 (''lichess user not found or API error: ''
                       @ strip (req_username req))), st,
                 [lichess_request (strip (req_username req)) (int_or (req_limit req) 50)])"
    by (simp add: import_lichess_def Let_def)
qed

theorem import_username_not_checked_witness:
  "ImportRequest_valid \<lparr>req_username = ''  '', req_months = None, req_limit = None\<rparr>
   \<and> strip ''  '' = []
   \<and> requests_get sample_env (chesscom_index_request [])
        = Inr \<lparr>status_code = 404, json_body = None, iter_lines = []\<rparr>
   \<and> requests_get sample_env (lichess_request [] 50)
        = Inr \<lparr>status_code = 404, json_body = None, iter_lines = []\<rparr>
   \<and> import_chesscom sample_env \<lparr>req_username = ''  '', req_months = None, req_limit = None\<rparr> []
        = (Inl (HTTPException 400 ''chess.com user not found or no archives: ''), [],
           [chesscom_index_request []])
   \<and> import_lichess sample_env \<lparr>req_username = ''  '', req_months = None, req_limit = None\<rparr> []
        = (Inl (HTTPException 400 ''lichess user not found or API error: ''), [],
           [lichess_request [] 50])"
proof -
  let ?req = "\<lparr>req_username = ''  '', req_months = None, req_limit = None\<rparr>"
  let ?resp = "\<lparr>status_code = 404, json_body = None, iter_lines = []\<rparr>"
  have v: "ImportRequest_valid ?req" by (simp add: ImportRequest_valid_def)
  have s: "strip (req_username ?req) = []" "lower [] = []" "int_or (req_limit ?req) 50 = 50"
    by code_simp+
  have g1: "requests_get sample_env (chesscom_index_request []) = Inr ?resp"
    and g2: "requests_get sample_env (lichess_request [] 50) = Inr ?resp"
    by code_simp+
  have n: "status_code ?resp \<noteq> 200" by simp
  from import_username_not_checked [OF v, of sample_env "[]"] g1 g2 n
  have "import_chesscom sample_env ?req []
        = (Inl (HTTPException 400 ''chess.com user not found or no archives: ''), [],
           [chesscom_index_request []])"
    and "import_lichess sample_env ?req []
        = (Inl (HTTPException 400 ''lichess user not found or API error: ''), [],
           [lichess_request [] 50])"
    unfolding s by auto
  with v s g1 g2 show ?thesis by simp
qed

text \<open>
  C2, as stated, fails: for a user name of two blanks both imports send their request
  upstream before they answer.
\<close>

theorem blank_username_counterexample:
  "import_chesscom sample_env \<lparr>req_username = ''  '', req_months = None, req_limit = None\<rparr> []
     = (Inl (HTTPException 400 ''chess.com user not found or no archives: ''), [],
        [\<lparr>url = JStr ''https://api.chess.com/pub/player//games/archives'',
           params = [], headers = []\<rparr>])
   \<and> import_lichess sample_env \<lparr>req_username = ''  '', req_months = None, req_limit = None\<rparr> []
     = (Inl (HTTPException 400 ''lichess user not found or API error: ''), [],
        [\<lparr>url = JStr ''https://lichess.org/api/games/user/'',
           params = [(''max'', ''50''), (''moves'', ''true''), (''pgnInJson'', ''true''),
                     (''clocks'', ''false''), (''opening'', ''true''),
                     (''perfType'', ''bullet,blitz,rapid'')],
           headers = [(''Accept'', ''application/x-ndjson'')]\<rparr>])"
  by code_simp


subsection \<open>The archives that are fetched\<close>

lemma slice_from_last: "1 \<le> m \<Longrightarrow> m \<le> int (length xs) \<Longrightarrow>
    rev (slice_from (- m) xs) = most_recent_first m xs"
  by (simp add: slice_from_def most_recent_first_def Let_def nat_diff_distrib')

lemma archive_list_window:
  assumes "json_body r = Some (JObj kvs)" "map_of kvs ''archives'' = Some (JArr as)"
    and "1 \<le> m" "m \<le> int (length as)"
  shows "archive_list m r = Inr (most_recent_first m as)"
  using assms by (simp add: archive_list_def slice_from_last)

lemma archives_loop_calls:
  assumes "archives_loop env user lim us n st = (res, st', cs)"
  shows "\<exists>fetched. cs = map archive_request fetched \<and> prefix fetched us \<and>
           (\<forall>n'. res = Inr n' \<and> n' < lim \<longrightarrow> fetched = us)"
  using assms
proof (induction us arbitrary: n st cs)
  case Nil
  then show ?case by simp
next
  case (Cons u us)
  have one: ?case if "cs = [archive_request u]" "\<forall>n'. res = Inr n' \<longrightarrow> lim \<le> n'"
    using that by (intro exI [of _ "[u]"]) auto
  have rec: ?case if "archives_loop env user lim us m s = (res, st', cs')"
    "cs = archive_request u # cs'" for m s cs'
  proof -
    from Cons.IH [OF that(1)] obtain fetched where "cs' = map archive_request fetched"
      "prefix fetched us" "\<forall>n'. res = Inr n' \<and> n' < lim \<longrightarrow> fetched = us"
      by blast
    with that(2) show ?thesis
      by (intro exI [of _ "u # fetched"]) auto
  qed
  show ?case
  proof (cases rule: archives_loop_Cons_cases [of env u user lim n st])
    case (raise e)
    with Cons.prems show ?thesis by (intro one) auto
  next
    case (skip gr)
    with Cons.prems obtain cs' where "archives_loop env user lim us n st = (res, st', cs')"
      "cs = archive_request u # cs'"
      by (auto simp: after_eq_iff)
    then show ?thesis by (rule rec)
  next
    case (nogames gr e)
    with Cons.prems show ?thesis by (intro one) auto
  next
    case (abort gr games e s)
    with Cons.prems show ?thesis by (intro one) auto
  next
    case (full gr games m s)
    with Cons.prems show ?thesis by (intro one) auto
  next
    case (more gr games m s)
    with Cons.prems obtain cs' where "archives_loop env user lim us m s = (res, st', cs')"
      "cs = archive_request u # cs'"
      by (auto simp: after_eq_iff)
    then show ?thesis by (rule rec)
  qed
qed

text \<open>
  C5, as the code has it. For an index of N archives and a window of M months, M at most
  N, the import runs over the M last listed archives, newest first: the archives it
  fetches are an initial part of that sequence, in that order. It stops before the end of
  the sequence when the count reaches the limit or an exception is raised; an import that
  returns with fewer insertions than the limit has fetched all M.
\<close>

theorem chesscom_archive_window:
  assumes "ImportRequest_valid req"
    and "requests_get env (chesscom_index_request (lower (strip (req_username req)))) = Inr r"
    and "status_code r = 200"
    and "json_body r = Some (JObj kvs)" and "map_of kvs ''archives'' = Some (JArr as)"
    and "int_or (req_months req) 1 \<le> int (length as)"
    and "import_chesscom env req st = (res, st', cs)"
  shows "\<exists>fetched.
           cs = chesscom_index_request (lower (strip (req_username req)))
                  # map archive_request fetched
         \<and> prefix fetched (most_recent_first (int_or (req_months req) 1) as)
         \<and> (\<forall>resp. res = Inr resp \<and> inserted resp < int_or (req_limit req) 50 \<longrightarrow>
               fetched = most_recent_first (int_or (req_months req) 1) as)"
proof -
  let ?user = "lower (strip (req_username req))"
  let ?m = "int_or (req_months req) 1"
  let ?lim = "int_or (req_limit req) 50"
  from assms(1) have "1 \<le> ?m"
    by (auto simp: ImportRequest_valid_def int_or_def split: option.splits)
  with assms(4-6) have window: "archive_list ?m r = Inr (most_recent_first ?m as)"
    by (intro archive_list_window)
  obtain res' st2 cs' where
    loop: "archives_loop env ?user ?lim (most_recent_first ?m as) 0 st = (res', st2, cs')"
    by (metis prod_cases3)
  with assms(1-3,7) window have cs: "cs = chesscom_index_request ?user # cs'"
    and res: "res = map_sum id (\<lambda>n. \<lparr>resp_source = ''chesscom'', resp_username = ?user,
                                       inserted = n\<rparr>) res'"
    by (auto simp: import_chesscom_def Let_def split: sum.splits)
  from archives_loop_calls [OF loop] obtain fetched where
    f: "cs' = map archive_request fetched" "prefix fetched (most_recent_first ?m as)"
      "\<forall>n'. res' = Inr n' \<and> n' < ?lim \<longrightarrow> fetched = most_recent_first ?m as"
    by blast
  from f(3) res have "\<forall>resp. res = Inr resp \<and> inserted resp < ?lim \<longrightarrow>
      fetched = most_recent_first ?m as"
    by (cases res') auto
  with cs f(1,2) show ?thesis by blast
qed

theorem chesscom_archive_window_witness:
  "ImportRequest_valid \<lparr>req_username = '' Magnus '', req_months = Some 2, req_limit = None\<rparr>
   \<and> most_recent_first 2 [JStr ''m1'', JStr ''m2'', JStr ''m3''] = [JStr ''m3'', JStr ''m2'']
   \<and> (\<exists>resp st'.
        import_chesscom sample_env
          \<lparr>req_username = '' Magnus '', req_months = Some 2, req_limit = None\<rparr> []
        = (Inr resp, st',
           chesscom_index_request ''magnus''
             # map archive_request [JStr ''m3'', JStr ''m2'']) \<and> inserted resp = 2)"
proof -
  let ?req = "\<lparr>req_username = '' Magnus '', req_months = Some 2, req_limit = None\<rparr>"
  let ?as = "[JStr ''m1'', JStr ''m2'', JStr ''m3'']"
  let ?kvs = "[(''archives'', JArr ?as)]"
  let ?r = "\<lparr>status_code = 200, json_body = Some (JObj ?kvs), iter_lines = []\<rparr>"
  have v: "ImportRequest_valid ?req" by (simp add: ImportRequest_valid_def)
  have u: "lower (strip (req_username ?req)) = ''magnus''" by code_simp
  have g: "requests_get sample_env (chesscom_index_request (lower (strip (req_username ?req)))) = Inr ?r"
    by code_simp
  have m: "int_or (req_months ?req) 1 = 2" "int_or (req_limit ?req) 50 = 50"
    by (simp_all add: int_or_def)
  have w: "most_recent_first 2 ?as = [JStr ''m3'', JStr ''m2'']"
    by (simp add: most_recent_first_def)
  have "fst (import_chesscom sample_env ?req [])
      = Inr \<lparr>resp_source = ''chesscom'', resp_username = ''magnus'', inserted = 2\<rparr>"
    by code_simp
  then obtain st' cs where run: "import_chesscom sample_env ?req []
      = (Inr \<lparr>resp_source = ''chesscom'', resp_username = ''magnus'', inserted = 2\<rparr>, st', cs)"
    by (metis prod.collapse)
  from chesscom_archive_window [OF v g _ _ _ _ run, of ?kvs ?as]
  have "cs = chesscom_index_request ''magnus'' # map archive_request [JStr ''m3'', JStr ''m2'']"
    unfolding u m w by auto
  with v w run show ?thesis by simp
qed

text \<open>
  C5, as stated, fails when the limit is reached before the window is exhausted: of the
  three archives of the index, with a window of three months and a limit of one game,
  only the newest is fetched.
\<close>

theorem archive_window_counterexample:
  "requests_get sample_env (chesscom_index_request ''magnus'')
     = Inr \<lparr>status_code = 200,
            json_body = Some (JObj [(''archives'', JArr [JStr ''m1'', JStr ''m2'', JStr ''m3''])]),
            iter_lines = []\<rparr>
   \<and> fst (import_chesscom sample_env
        \<lparr>req_username = ''magnus'', req_months = Some 3, req_limit = Some 1\<rparr> [])
     = Inr \<lparr>resp_source = ''chesscom'', resp_username = ''magnus'', inserted = 1\<rparr>
   \<and> snd (snd (import_chesscom sample_env
        \<lparr>req_username = ''magnus'', req_months = Some 3, req_limit = Some 1\<rparr> []))
     = [chesscom_index_request ''magnus'', archive_request (JStr ''m3'')]"
  by code_simp


subsection \<open>Running an import again\<close>

lemma find_one_mono:
  "find_one env key st \<noteq> None \<Longrightarrow> set st \<subseteq> set st2 \<Longrightarrow> find_one env key st2 \<noteq> None"
  by (auto simp: find_one_def find_None_iff)

text \<open>A stored game is found again under the key of the game it was built from.\<close>

lemma find_one_created:
  assumes "Game env src user p f = Inr doc"
    and "set (create_document env doc st) \<subseteq> set st2"
  shows "find_one env [(''source'', JStr src), (''pgn'', p)] st2 \<noteq> None"
proof -
  let ?d = "game_dump doc @ [(''created_at'', BDate (utcnow env (length st)))]"
  from assms(2) have "?d \<in> set st2"
    by (simp add: create_document_fields(1))
  moreover from Game_fields(3) [OF assms(1)] have p: "p = JStr (pgn doc)"
    by (cases p) auto
  have "list_all (query_match env ?d) [(''source'', JStr src), (''pgn'', p)]"
    unfolding p using Game_fields(1) [OF assms(1)]
    by (simp add: query_match_def create_document_fields del: map_of_append)
  ultimately show ?thesis
    by (auto simp: find_one_def find_None_iff)
qed

lemma chesscom_game_mono:
  "chesscom_game env user g n st = (r, st') \<Longrightarrow> set st \<subseteq> set st'"
  by (auto dest!: chesscom_game_step simp: create_document_fields(1))

lemma chesscom_game_rerun:
  assumes "chesscom_game env user g n st = (Inr n', st')" and "set st' \<subseteq> set st2"
  shows "chesscom_game env user g m st2 = (Inr m, st2)"
proof -
  from assms(1) obtain p where p: "dict_get g ''pgn'' JNull = Inr p"
    by (auto simp: chesscom_game_def split: sum.splits)
  show ?thesis
  proof (cases "truthy p")
    case False
    with p show ?thesis by (simp add: chesscom_game_def)
  next
    case True
    with assms(1) p obtain f where f: "chesscom_fields env g = Inr f"
      by (auto simp: chesscom_game_def split: sum.splits)
    have "find_one env [(''source'', JStr ''chesscom''), (''pgn'', p)] st2 \<noteq> None"
    proof (cases "find_one env [(''source'', JStr ''chesscom''), (''pgn'', p)] st = None")
      case False
      from assms(1) have "set st \<subseteq> set st'" by (rule chesscom_game_mono)
      with assms(2) have "set st \<subseteq> set st2" by simp
      with False show ?thesis by (rule find_one_mono)
    next
      case None: True
      with assms(1) p True f obtain doc where "Game env ''chesscom'' user p f = Inr doc"
        "st' = create_document env doc st"
        by (auto simp: chesscom_game_def split: sum.splits)
      with assms(2) show ?thesis by (intro find_one_created [of env _ user p f doc st]) auto
    qed
    with p True f show ?thesis by (simp add: chesscom_game_def)
  qed
qed

lemma games_loop_mono:
  "games_loop env user lim gs n st = (Inr n', st') \<Longrightarrow> n \<le> n' \<and> set st \<subseteq> set st'"
proof (induction gs arbitrary: n st)
  case Nil
  then show ?case by simp
next
  case (Cons g gs)
  show ?case
  proof (cases "lim \<le> n")
    case True
    with Cons.prems show ?thesis by simp
  next
    case False
    obtain r s where step: "chesscom_game env user g n st = (r, s)" by force
    with False Cons.prems obtain k where r: "r = Inr k"
      and rest: "games_loop env user lim gs k s = (Inr n', st')"
      by (cases r) auto
    from chesscom_game_step [OF step] r have "n \<le> k" by auto
    moreover from chesscom_game_mono [OF step] have "set st \<subseteq> set s" .
    ultimately show ?thesis using Cons.IH [OF rest] by auto
  qed
qed

lemma games_loop_rerun:
  assumes "games_loop env user lim gs n st = (Inr n', st')" and "n' < lim"
    and "set st' \<subseteq> set st2"
  shows "games_loop env user lim gs m st2 = (Inr m, st2)"
  using assms
proof (induction gs arbitrary: n st)
  case Nil
  then show ?case by simp
next
  case (Cons g gs)
  from games_loop_mono [OF Cons.prems(1)] Cons.prems(2) have "\<not> lim \<le> n" by simp
  obtain r s where step: "chesscom_game env user g n st = (r, s)" by force
  with \<open>\<not> lim \<le> n\<close> Cons.prems(1) obtain k where r: "r = Inr k"
    and rest: "games_loop env user lim gs k s = (Inr n', st')"
    by (cases r) auto
  from games_loop_mono [OF rest] Cons.prems(3) have "set s \<subseteq> set st2" by auto
  with step r have "chesscom_game env user g m st2 = (Inr m, st2)"
    by (intro chesscom_game_rerun [of env user g n st k s]) auto
  moreover have "games_loop env user lim gs m st2 = (Inr m, st2)"
    using rest Cons.prems(2,3) by (rule Cons.IH)
  ultimately show ?case by simp
qed

lemma archives_loop_mono:
  "archives_loop env user lim us n st = (Inr n', st', cs) \<Longrightarrow> n \<le> n' \<and> set st \<subseteq> set st'"
proof (induction us arbitrary: n st cs)
  case Nil
  then show ?case by simp
next
  case (Cons u us)
  show ?case
  proof (cases rule: archives_loop_Cons_cases [of env u user lim n st])
    case (skip gr)
    with Cons.prems Cons.IH show ?thesis by (auto simp: after_eq_iff)
  next
    case (full gr games m s)
    with Cons.prems games_loop_mono [of env user lim games n st m s] show ?thesis by auto
  next
    case (more gr games m s)
    with Cons.prems obtain cs' where rest: "archives_loop env user lim us m s = (Inr n', st', cs')"
      by (auto simp: after_eq_iff)
    from Cons.IH [OF rest] games_loop_mono [OF more(4)] show ?thesis by auto
  qed (use Cons.prems in auto)
qed

lemma archives_loop_rerun:
  assumes "archives_loop env user lim us n st = (Inr n', st', cs)" and "n' < lim"
    and "set st' \<subseteq> set st2" and "m < lim"
  shows "archives_loop env user lim us m st2 = (Inr m, st2, cs)"
  using assms
proof (induction us arbitrary: n st cs)
  case Nil
  then show ?case by simp
next
  case (Cons u us)
  show ?case
  proof (cases rule: archives_loop_Cons_cases [of env u user lim n st])
    case (skip gr)
    with Cons.prems(1) obtain cs' where rest: "archives_loop env user lim us n st = (Inr n', st', cs')"
      and cs: "cs = archive_request u # cs'"
      by (auto simp: after_eq_iff)
    from Cons.IH [OF rest Cons.prems(2-4)] skip(1,2) cs show ?thesis by simp
  next
    case (full gr games k s)
    with Cons.prems(1,2) show ?thesis by simp
  next
    case (more gr games k s)
    with Cons.prems(1) obtain cs' where rest: "archives_loop env user lim us k s = (Inr n', st', cs')"
      and cs: "cs = archive_request u # cs'"
      by (auto simp: after_eq_iff)
    from archives_loop_mono [OF rest] Cons.prems(3) have "set s \<subseteq> set st2" by auto
    with more(4,5) have "games_loop env user lim games m st2 = (Inr m, st2)"
      by (intro games_loop_rerun [of env user lim games n st k s]) auto
    with Cons.IH [OF rest Cons.prems(2-4)] more(1-3) cs Cons.prems(4) show ?thesis by simp
  qed (use Cons.prems in auto)
qed

lemma lichess_game_step:
  "lichess_game env user g n st = (r, st') \<Longrightarrow>
     (\<exists>e. r = Inl e \<and> st' = st) \<or> (r = Inr n \<and> st' = st) \<or>
     (r = Inr (n + 1) \<and> (\<exists>doc. st' = create_document env doc st))"
  by (auto simp: lichess_game_def split: sum.splits if_splits)

lemma lichess_game_mono:
  "lichess_game env user g n st = (r, st') \<Longrightarrow> set st \<subseteq> set st'"
  by (auto dest!: lichess_game_step simp: create_document_fields(1))

lemma lichess_game_rerun:
  assumes "lichess_game env user g n st = (Inr n', st')" and "set st' \<subseteq> set st2"
  shows "lichess_game env user g m st2 = (Inr m, st2)"
proof -
  from assms(1) obtain p where p: "lichess_pgn g = Inr p"
    by (auto simp: lichess_game_def split: sum.splits)
  show ?thesis
  proof (cases "truthy p")
    case False
    with p show ?thesis by (simp add: lichess_game_def)
  next
    case True
    with assms(1) p obtain f where f: "lichess_fields env g = Inr f"
      by (auto simp: lichess_game_def split: sum.splits)
    have "find_one env [(''source'', JStr ''lichess''), (''pgn'', p)] st2 \<noteq> None"
    proof (cases "find_one env [(''source'', JStr ''lichess''), (''pgn'', p)] st = None")
      case False
      from assms(1) have "set st \<subseteq> set st'" by (rule lichess_game_mono)
      with assms(2) have "set st \<subseteq> set st2" by simp
      with False show ?thesis by (rule find_one_mono)
    next
      case None: True
      with assms(1) p True f obtain doc where "Game env ''lichess'' user p f = Inr doc"
        "st' = create_document env doc st"
        by (auto simp: lichess_game_def split: sum.splits)
      with assms(2) show ?thesis by (intro find_one_created [of env _ user p f doc st]) auto
    qed
    with p True f show ?thesis by (simp add: lichess_game_def)
  qed
qed

lemma lichess_lines_mono:
  "lichess_lines env user ls n st = (Inr n', st') \<Longrightarrow> set st \<subseteq> set st'"
proof (induction ls arbitrary: n st)
  case Nil
  then show ?case by simp
next
  case (Cons l ls)
  show ?case
  proof (cases "l = [] \<or> json_loads env l = None")
    case True
    with Cons.prems have "lichess_lines env user ls n st = (Inr n', st')"
      by (auto split: if_splits)
    then show ?thesis by (rule Cons.IH)
  next
    case False
    then obtain g where g: "l \<noteq> []" "json_loads env l = Some g" by auto
    obtain r s where step: "lichess_game env user g n st = (r, s)" by force
    with g Cons.prems obtain k where "r = Inr k"
      and rest: "lichess_lines env user ls k s = (Inr n', st')"
      by (cases r) auto
    with lichess_game_mono [OF step] Cons.IH [OF rest] show ?thesis by auto
  qed
qed

lemma lichess_lines_rerun:
  assumes "lichess_lines env user ls n st = (Inr n', st')" and "set st' \<subseteq> set st2"
  shows "lichess_lines env user ls m st2 = (Inr m, st2)"
  using assms
proof (induction ls arbitrary: n st)
  case Nil
  then show ?case by simp
next
  case (Cons l ls)
  show ?case
  proof (cases "l = [] \<or> json_loads env l = None")
    case True
    with Cons.prems(1) have "lichess_lines env user ls n st = (Inr n', st')"
      by (auto split: if_splits)
    from Cons.IH [OF this Cons.prems(2)] True show ?thesis by auto
  next
    case False
    then obtain g where g: "l \<noteq> []" "json_loads env l = Some g" by auto
    obtain r s where step: "lichess_game env user g n st = (r, s)" by force
    with g Cons.prems(1) obtain k where r: "r = Inr k"
      and rest: "lichess_lines env user ls k s = (Inr n', st')"
      by (cases r) auto
    from lichess_lines_mono [OF rest] Cons.prems(2) have "set s \<subseteq> set st2" by auto
    with step r have "lichess_game env user g m st2 = (Inr m, st2)"
      by (intro lichess_game_rerun [of env user g n st k s]) auto
    moreover have "lichess_lines env user ls m st2 = (Inr m, st2)"
      using rest Cons.prems(2) by (rule Cons.IH)
    ultimately show ?thesis using g by simp
  qed
qed

text \<open>
  C4, as the code has it. A chess.com import that returned with fewer insertions than its
  limit, run again on the store it left with the same upstream answers, makes the same
  requests, inserts nothing and leaves the store as it is. A lichess import that returned,
  run again in the same way, does so too.
\<close>

theorem import_rerun_inserts_nothing:
  "(import_chesscom env req st = (Inr resp, st1, cs) \<and>
      inserted resp < int_or (req_limit req) 50 \<longrightarrow>
    import_chesscom env req st1 = (Inr (resp\<lparr>inserted := 0\<rparr>), st1, cs))
   \<and> (import_lichess env req st = (Inr resp, st1, cs) \<longrightarrow>
    import_lichess env req st1 = (Inr (resp\<lparr>inserted := 0\<rparr>), st1, cs))"
proof (intro conjI impI)
  let ?user = "lower (strip (req_username req))"
  let ?lim = "int_or (req_limit req) 50"
  assume "import_chesscom env req st = (Inr resp, st1, cs) \<and> inserted resp < ?lim"
  then have run: "import_chesscom env req st = (Inr resp, st1, cs)"
    and less: "inserted resp < ?lim"
    by simp_all
  from run have valid: "ImportRequest_valid req"
    by (auto simp: import_chesscom_def split: if_splits)
  from run valid obtain r us cs' where
    r: "requests_get env (chesscom_index_request ?user) = Inr r" "status_code r = 200"
      "archive_list (int_or (req_months req) 1) r = Inr us"
    and loop: "archives_loop env ?user ?lim us 0 st = (Inr (inserted resp), st1, cs')"
    and resp: "resp = \<lparr>resp_source = ''chesscom'', resp_username = ?user,
                       inserted = inserted resp\<rparr>"
    and cs: "cs = chesscom_index_request ?user # cs'"
    by (auto simp: import_chesscom_def Let_def after_eq_iff
             split: sum.splits if_splits prod.splits)
  from int_or_valid_limit [OF valid] have "0 < ?lim" by simp
  with loop less have "archives_loop env ?user ?lim us 0 st1 = (Inr 0, st1, cs')"
    by (intro archives_loop_rerun [of env ?user ?lim us 0 st "inserted resp" st1 cs']) auto
  with valid r cs have "import_chesscom env req st1
      = (Inr \<lparr>resp_source = ''chesscom'', resp_username = ?user, inserted = 0\<rparr>, st1, cs)"
    by (simp add: import_chesscom_def Let_def)
  moreover from resp have "resp\<lparr>inserted := 0\<rparr>
      = \<lparr>resp_source = ''chesscom'', resp_username = ?user, inserted = 0\<rparr>"
    by (metis import_response.update_convs(3))
  ultimately show "import_chesscom env req st1 = (Inr (resp\<lparr>inserted := 0\<rparr>), st1, cs)"
    by simp
next
  let ?user = "strip (req_username req)"
  let ?lim = "int_or (req_limit req) 50"
  assume run: "import_lichess env req st = (Inr resp, st1, cs)"
  then have valid: "ImportRequest_valid req"
    by (auto simp: import_lichess_def split: if_splits)
  from run valid obtain r where
    r: "requests_get env (lichess_request ?user ?lim) = Inr r" "status_code r = 200"
    and loop: "lichess_lines env ?user (iter_lines r) 0 st = (Inr (inserted resp), st1)"
    and resp: "resp = \<lparr>resp_source = ''lichess'', resp_username = ?user,
                       inserted = inserted resp\<rparr>"
    and cs: "cs = [lichess_request ?user ?lim]"
    by (auto simp: import_lichess_def Let_def after_eq_iff
             split: sum.splits if_splits prod.splits)
  from loop have "lichess_lines env ?user (iter_lines r) 0 st1 = (Inr 0, st1)"
    by (rule lichess_lines_rerun) simp
  with valid r cs have "import_lichess env req st1
      = (Inr \<lparr>resp_source = ''lichess'', resp_username = ?user, inserted = 0\<rparr>, st1, cs)"
    by (simp add: import_lichess_def Let_def)
  moreover from resp have "resp\<lparr>inserted := 0\<rparr>
      = \<lparr>resp_source = ''lichess'', resp_username = ?user, inserted = 0\<rparr>"
    by (metis import_response.update_convs(3))
  ultimately show "import_lichess env req st1 = (Inr (resp\<lparr>inserted := 0\<rparr>), st1, cs)"
    by simp
qed

theorem import_rerun_inserts_nothing_witness:
  "(\<exists>resp st1 cs.
      import_chesscom sample_env
        \<lparr>req_username = ''magnus'', req_months = Some 3, req_limit = None\<rparr> []
        = (Inr resp, st1, cs)
      \<and> inserted resp = 3 \<and> length st1 = 3
      \<and> import_chesscom sample_env
          \<lparr>req_username = ''magnus'', req_months = Some 3, req_limit = None\<rparr> st1
        = (Inr (resp\<lparr>inserted := 0\<rparr>), st1, cs))
   \<and> (\<exists>resp st1 cs.
      import_lichess sample_env
        \<lparr>req_username = ''alice'', req_months = None, req_limit = None\<rparr> []
        = (Inr resp, st1, cs)
      \<and> inserted resp = 1 \<and> length st1 = 1
      \<and> import_lichess sample_env
          \<lparr>req_username = ''alice'', req_months = None, req_limit = None\<rparr> st1
        = (Inr (resp\<lparr>inserted := 0\<rparr>), st1, cs))"
proof -
  let ?c = "\<lparr>req_username = ''magnus'', req_months = Some 3, req_limit = None\<rparr>"
  let ?l = "\<lparr>req_username = ''alice'', req_months = None, req_limit = None\<rparr>"
  have "fst (import_chesscom sample_env ?c [])
      = Inr \<lparr>resp_source = ''chesscom'', resp_username = ''magnus'', inserted = 3\<rparr>"
    and "length (fst (snd (import_chesscom sample_env ?c []))) = 3"
    by code_simp+
  then obtain st1 cs where run1: "import_chesscom sample_env ?c []
      = (Inr \<lparr>resp_source = ''chesscom'', resp_username = ''magnus'', inserted = 3\<rparr>, st1, cs)"
    and len1: "length st1 = 3"
    by (metis prod.collapse)
  have lim: "int_or (req_limit ?c) 50 = 50" by (simp add: int_or_def)
  from import_rerun_inserts_nothing [of sample_env ?c "[]"
      "\<lparr>resp_source = ''chesscom'', resp_username = ''magnus'', inserted = 3\<rparr>" st1 cs] run1 lim
  have again1: "import_chesscom sample_env ?c st1
      = (Inr (\<lparr>resp_source = ''chesscom'', resp_username = ''magnus'', inserted = 3\<rparr>
               \<lparr>inserted := 0\<rparr>), st1, cs)"
    by simp
  have "fst (import_lichess sample_env ?l [])
      = Inr \<lparr>resp_source = ''lichess'', resp_username = ''alice'', inserted = 1\<rparr>"
    and "length (fst (snd (import_lichess sample_env ?l []))) = 1"
    by code_simp+
  then obtain st2 cs2 where run2: "import_lichess sample_env ?l []
      = (Inr \<lparr>resp_source = ''lichess'', resp_username = ''alice'', inserted = 1\<rparr>, st2, cs2)"
    and len2: "length st2 = 1"
    by (metis prod.collapse)
  from import_rerun_inserts_nothing [of sample_env ?l "[]"
      "\<lparr>resp_source = ''lichess'', resp_username = ''alice'', inserted = 1\<rparr>" st2 cs2] run2
  have again2: "import_lichess sample_env ?l st2
      = (Inr (\<lparr>resp_source = ''lichess'', resp_username = ''alice'', inserted = 1\<rparr>
               \<lparr>inserted := 0\<rparr>), st2, cs2)"
    by simp
  from run1 len1 again1 have "\<exists>resp st1 cs.
      import_chesscom sample_env ?c [] = (Inr resp, st1, cs)
      \<and> inserted resp = 3 \<and> length st1 = 3
      \<and> import_chesscom sample_env ?c st1 = (Inr (resp\<lparr>inserted := 0\<rparr>), st1, cs)"
    by (intro exI [of _ "\<lparr>resp_source = ''chesscom'', resp_username = ''magnus'', inserted = 3\<rparr>"]
          exI [of _ st1] exI [of _ cs]) simp
  moreover from run2 len2 again2 have "\<exists>resp st1 cs.
      import_lichess sample_env ?l [] = (Inr resp, st1, cs)
      \<and> inserted resp = 1 \<and> length st1 = 1
      \<and> import_lichess sample_env ?l st1 = (Inr (resp\<lparr>inserted := 0\<rparr>), st1, cs)"
    by (intro exI [of _ "\<lparr>resp_source = ''lichess'', resp_username = ''alice'', inserted = 1\<rparr>"]
          exI [of _ st2] exI [of _ cs2]) simp
  ultimately show ?thesis by blast
qed

text \<open>
  C4, as stated, fails for chess.com when the first run was cut off by the limit: with a
  limit of one game, the first run stores the first game of the newest archive, and the
  second run, on the store the first one left, skips that game and stores the second one.
\<close>

theorem rerun_after_limit_counterexample:
  "fst (import_chesscom sample_env
          \<lparr>req_username = ''magnus'', req_months = Some 1, req_limit = Some 1\<rparr> [])
     = Inr \<lparr>resp_source = ''chesscom'', resp_username = ''magnus'', inserted = 1\<rparr>
   \<and> fst (import_chesscom sample_env
          \<lparr>req_username = ''magnus'', req_months = Some 1, req_limit = Some 1\<rparr>
          (fst (snd (import_chesscom sample_env
             \<lparr>req_username = ''magnus'', req_months = Some 1, req_limit = Some 1\<rparr> []))))
     = Inr \<lparr>resp_source = ''chesscom'', resp_username = ''magnus'', inserted = 1\<rparr>"
  by code_simp

end
